theory Spec2Isabelle
  imports Complex_Main "HOL-Library.Sublist" "HOL-Library.Product_Lexorder"
begin

section \<open>The Databricks notebook client: a shallow embedding\<close>

text \<open>
  The embedding follows \<^verbatim>\<open>src/databricks_notebook/__init__.py\<close>; the older
  \<^verbatim>\<open>src/notebook.py\<close> has the same polling loop, upload payload, data source
  selection, report builder and diff renderer, with the host passed explicitly instead of
  cached. A leading underscore of a Python name is dropped (\<open>_get_host\<close> is
  \<open>get_host\<close>), since an Isabelle name starts with a letter.

  Python values are typed as the annotations and the bodies of the remote service give
  them: \<open>str | None\<close> is \<open>string option\<close>, an \<open>int\<close> is \<open>int\<close>, a JSON object
  with known fields is a record. A raised exception is the \<open>Inl\<close> of a sum.

  A \<open>str\<close> that the module only compares, joins with ASCII text and passes on (a host, a
  key, a token, a type, a status, a query, a message) is an Isabelle \<open>string\<close>. A \<open>str\<close>
  whose characters the module looks at, or that becomes part of the report, is the list of
  its code points (\<open>py_str\<close>): the SQL texts are split into lines and compared character
  by character, and the report is built around them.
\<close>

subsection \<open>Errors, data and the remote service\<close>

datatype py_error =
    ValueError string
  | IndexError
  | KeyError string
  | OverflowError string
  | OSError string
  | RemoteError string

type_synonym py_str = "nat list"

definition str :: "string \<Rightarrow> py_str" where
  "str s = map of_char s"

record data_source =
  ds_id :: int
  ds_type :: string

record experimental_settings =
  import_sql_files_as_script_objects :: bool
  infer_schema_from_scripts :: bool
  generate_synthetic_data :: bool

record project_settings =
  error_on_zero_diff :: bool
  transform_group_creation_strategy :: string
  experimental :: experimental_settings

record project_payload =
  name :: string
  from_data_source_id :: int
  to_data_source_id :: int
  version :: int
  settings :: project_settings

record project =
  project_id :: int

record query_file =
  filename :: string
  content :: string

text \<open>
  A translated model. The renderer uses \<open>asset_name\<close>, \<open>source_sql\<close> and
  \<open>translation_status\<close> as texts. For \<open>target_sql\<close> it allows for a value that is no text
  (\<open>model['target_sql'] or ''\<close>), so this key has what a JSON object can have for it: the
  key is missing, or it holds null, or it holds a text.
\<close>

datatype target_sql_key = Absent | Null | Text py_str

record translated_model =
  asset_name :: py_str
  source_sql :: py_str
  target_sql :: target_sql_key
  translation_status :: py_str

record translation_results =
  status :: string
  translated_models :: "translated_model list"

text \<open>
  The body of the answer to \<open>POST org\<close>. The module reads its field \<open>api_token\<close>, stores
  the key, and only then reads \<open>org_id\<close>; so a body may lack either.
\<close>

record organization =
  api_token :: "string option"
  organization_id :: "int option"

text \<open>
  The requests the module sends, with the host, the token or API key and the body that
  the transport helpers receive. What the program does to the outside is a list of events.
\<close>

datatype request =
    Post_org string string
  | Get_data_sources string string
  | Post_project string string project_payload
  | Post_files string string int "query_file list"
  | Post_translate string string int
  | Get_job string string int int

datatype event =
    Request request
  | Sleep int
  | Print string
  | Display py_str

text \<open>
  The transport helpers (\<open>post_data\<close>, \<open>get_data\<close>) and the service behind them are not
  part of the module: they are a parameter. An answer may depend on everything that
  happened before, so each endpoint takes the events so far. Its \<open>Inl\<close> is whatever the
  call raises: a transport failure, a body that is not JSON, or a body without the field
  that the caller reads next (no state changes between the call and that read, except in
  \<open>create_organization\<close>, whose body therefore keeps its fields optional).

  The system clock behind \<open>time.sleep\<close> is a parameter too: \<open>os_sleep\<close> is the error,
  if any, with which the system refuses a sleep of a length that the interpreter has
  accepted. Which lengths it refuses depends on the platform and on its clock.
\<close>

record remote =
  post_org :: "event list \<Rightarrow> string \<Rightarrow> string \<Rightarrow> py_error + organization"
  get_data_sources :: "event list \<Rightarrow> string \<Rightarrow> string \<Rightarrow> py_error + data_source list"
  post_project :: "event list \<Rightarrow> string \<Rightarrow> string \<Rightarrow> project_payload \<Rightarrow> py_error + project"
  post_files :: "event list \<Rightarrow> string \<Rightarrow> string \<Rightarrow> int \<Rightarrow> query_file list \<Rightarrow> py_error + unit"
  post_translate :: "event list \<Rightarrow> string \<Rightarrow> string \<Rightarrow> int \<Rightarrow> py_error + int"
  get_job :: "event list \<Rightarrow> string \<Rightarrow> string \<Rightarrow> int \<Rightarrow> int \<Rightarrow> py_error + translation_results"
  os_sleep :: "event list \<Rightarrow> int \<Rightarrow> py_error option"

text \<open>The module globals \<open>_notebook_host\<close> and \<open>_current_api_key\<close>, and the events.\<close>

record world =
  notebook_host :: "string option"
  current_api_key :: "string option"
  trace :: "event list"

definition initial_world :: world where
  "initial_world = \<lparr>notebook_host = None, current_api_key = None, trace = []\<rparr>"

definition emit :: "event \<Rightarrow> world \<Rightarrow> world" where
  "emit e w = w\<lparr>trace := trace w @ [e]\<rparr>"

definition requests :: "event list \<Rightarrow> request list" where
  "requests t = concat (map (\<lambda>e. case e of Request r \<Rightarrow> [r] | _ \<Rightarrow> []) t)"

subsection \<open>Decimal text of an integer, as an f-string writes it\<close>

definition digit_char :: "nat \<Rightarrow> char" where
  "digit_char d = ''0123456789'' ! d"

function str_nat :: "nat \<Rightarrow> string" where
  "str_nat n = (if n < 10 then [digit_char n] else str_nat (n div 10) @ [digit_char (n mod 10)])"
  by pat_completeness auto
termination
  by (relation "measure id") auto

declare str_nat.simps [simp del]

definition str_int :: "int \<Rightarrow> string" where
  "str_int i = (if i < 0 then ''-'' @ str_nat (nat (- i)) else str_nat (nat i))"

subsection \<open>Host and API key\<close>

definition DEFAULT_HOST :: string where
  "DEFAULT_HOST = ''https://app.datafold.com''"

definition get_host :: "string option \<Rightarrow> world \<Rightarrow> string \<times> world" where
  "get_host host w =
     (case host of
        Some h \<Rightarrow> (h, w\<lparr>notebook_host := Some h\<rparr>)
      | None \<Rightarrow>
          (case notebook_host w of
             Some h \<Rightarrow> (h, w)
           | None \<Rightarrow> (DEFAULT_HOST, w)))"

text \<open>
  The parameter \<open>host\<close> of \<open>_upload_queries\<close>, \<open>_start_translation\<close> and
  \<open>_wait_for_translation_results\<close> is declared \<open>host: str = DEFAULT_HOST\<close>, where the
  other operations declare \<open>host: str | None = None\<close>. The operations below take the
  value of the parameter; this is the value in a call of one of the three that gives no
  host.
\<close>

definition host_parameter_default :: "string option" where
  "host_parameter_default = Some DEFAULT_HOST"

definition set_current_api_key :: "string \<Rightarrow> world \<Rightarrow> world" where
  "set_current_api_key api_key w = w\<lparr>current_api_key := Some api_key\<rparr>"

definition create_organization ::
  "remote \<Rightarrow> string \<Rightarrow> string option \<Rightarrow> world \<Rightarrow> (py_error + string \<times> int) \<times> world" where
  "create_organization R org_token host w0 =
     (case get_host host w0 of (h, w1) \<Rightarrow>
        let w2 = emit (Print ''Creating Organization...'') w1;
            w3 = emit (Request (Post_org h org_token)) w2
        in case post_org R (trace w2) h org_token of
             Inl e \<Rightarrow> (Inl e, w3)
           | Inr result \<Rightarrow>
               (case api_token result of
                  None \<Rightarrow> (Inl (KeyError ''api_token''), w3)
                | Some api_key \<Rightarrow>
                    let w4 = set_current_api_key api_key w3
                    in (case organization_id result of
                          None \<Rightarrow> (Inl (KeyError ''org_id''), w4)
                        | Some org_id \<Rightarrow>
                            (Inr (api_key, org_id),
                             emit (Print (''Organization created with id '' @ str_int org_id)) w4))))"

definition get_current_api_key ::
  "remote \<Rightarrow> string option \<Rightarrow> string option \<Rightarrow> world \<Rightarrow> (py_error + string option) \<times> world" where
  "get_current_api_key R org_token host w0 =
     (case current_api_key w0 of
        Some k \<Rightarrow> (Inr (Some k), w0)
      | None \<Rightarrow>
          (case org_token of
             Some tok \<Rightarrow>
               (case get_host host w0 of (h, w1) \<Rightarrow>
                  (case create_organization R tok (Some h) w1 of
                     (Inl e, w2) \<Rightarrow> (Inl e, w2)
                   | (Inr (api_key, org_id), w2) \<Rightarrow>
                       (Inr (Some api_key), set_current_api_key api_key w2)))
           | None \<Rightarrow> (Inr None, w0)))"

subsection \<open>The steps of a translation run\<close>

definition fetch_data_sources ::
  "remote \<Rightarrow> string \<Rightarrow> string option \<Rightarrow> world \<Rightarrow> (py_error + data_source list) \<times> world" where
  "fetch_data_sources R api_key host w0 =
     (case get_host host w0 of (h, w1) \<Rightarrow>
        (get_data_sources R (trace w1) h api_key,
         emit (Request (Get_data_sources h api_key)) w1))"

definition first_item :: "'a list \<Rightarrow> py_error + 'a" where
  "first_item xs = (case xs of [] \<Rightarrow> Inl IndexError | x # _ \<Rightarrow> Inr x)"

definition source_data_source_id :: "data_source list \<Rightarrow> py_error + int" where
  "source_data_source_id data_sources =
     map_sum id ds_id (first_item (filter (\<lambda>d. ds_type d \<noteq> ''databricks'') data_sources))"

definition target_data_source_id :: "data_source list \<Rightarrow> py_error + int" where
  "target_data_source_id data_sources =
     map_sum id ds_id (first_item (filter (\<lambda>d. ds_type d = ''databricks'') data_sources))"

definition dma_project_payload :: "int \<Rightarrow> int \<Rightarrow> string \<Rightarrow> project_payload" where
  "dma_project_payload source_ds_id target_ds_id nm =
     \<lparr>name = nm,
      from_data_source_id = source_ds_id,
      to_data_source_id = target_ds_id,
      version = 2,
      settings =
        \<lparr>error_on_zero_diff = False,
         transform_group_creation_strategy = ''group_individual_operations'',
         experimental =
           \<lparr>import_sql_files_as_script_objects = True,
            infer_schema_from_scripts = True,
            generate_synthetic_data = True\<rparr>\<rparr>\<rparr>"

definition create_dma_project ::
  "remote \<Rightarrow> string \<Rightarrow> int \<Rightarrow> int \<Rightarrow> string \<Rightarrow> string option \<Rightarrow> world \<Rightarrow> (py_error + project) \<times> world" where
  "create_dma_project R api_key source_ds_id target_ds_id nm host w0 =
     (case get_host host w0 of (h, w1) \<Rightarrow>
        let payload = dma_project_payload source_ds_id target_ds_id nm
        in (post_project R (trace w1) h api_key payload,
            emit (Request (Post_project h api_key payload)) w1))"

definition upload_payload :: "string list \<Rightarrow> query_file list" where
  "upload_payload queries =
     map (\<lambda>(i, query). \<lparr>filename = ''query_'' @ str_nat (i + 1) @ ''.sql'', content = query\<rparr>)
       (enumerate 0 queries)"

definition upload_queries ::
  "remote \<Rightarrow> string \<Rightarrow> int \<Rightarrow> string list \<Rightarrow> string option \<Rightarrow> world \<Rightarrow> (py_error + unit) \<times> world" where
  "upload_queries R api_key pid queries host w0 =
     (case get_host host w0 of (h, w1) \<Rightarrow>
        let payload = upload_payload queries
        in (post_files R (trace w1) h api_key pid payload,
            emit (Request (Post_files h api_key pid payload)) w1))"

definition start_translation ::
  "remote \<Rightarrow> string \<Rightarrow> int \<Rightarrow> string option \<Rightarrow> world \<Rightarrow> (py_error + int) \<times> world" where
  "start_translation R api_key pid host w0 =
     (case get_host host w0 of (h, w1) \<Rightarrow>
        (post_translate R (trace w1) h api_key pid,
         emit (Request (Post_translate h api_key pid)) w1))"

definition translate_queries ::
  "remote \<Rightarrow> string \<Rightarrow> string list \<Rightarrow> string option \<Rightarrow> world \<Rightarrow> (py_error + int \<times> int) \<times> world" where
  "translate_queries R api_key queries host w0 =
     (case get_host host w0 of (h, w1) \<Rightarrow>
      case fetch_data_sources R api_key (Some h) w1 of
        (Inl e, w2) \<Rightarrow> (Inl e, w2)
      | (Inr data_sources, w2) \<Rightarrow>
      case source_data_source_id data_sources of
        Inl e \<Rightarrow> (Inl e, w2)
      | Inr src \<Rightarrow>
      case target_data_source_id data_sources of
        Inl e \<Rightarrow> (Inl e, w2)
      | Inr tgt \<Rightarrow>
      case create_dma_project R api_key src tgt ''Databricks Notebook Project'' (Some h)
             (emit (Print ''Creating Translation Project...'') w2) of
        (Inl e, w3) \<Rightarrow> (Inl e, w3)
      | (Inr proj, w3) \<Rightarrow>
      case upload_queries R api_key (project_id proj) queries (Some h)
             (emit (Print ''Uploading queries to translate...'')
               (emit (Print (''Translation Project created with id '' @ str_int (project_id proj) @ ''.'')) w3)) of
        (Inl e, w4) \<Rightarrow> (Inl e, w4)
      | (Inr _, w4) \<Rightarrow>
      case start_translation R api_key (project_id proj) (Some h)
             (emit (Print ''Uploaded queries to translate.'') w4) of
        (Inl e, w5) \<Rightarrow> (Inl e, w5)
      | (Inr translation_id, w5) \<Rightarrow>
          (Inr (project_id proj, translation_id),
           emit (Print (''Started translation with id '' @ str_int translation_id)) w5))"

subsection \<open>Polling\<close>

text \<open>
  \<open>time.sleep\<close> of CPython turns the seconds into nanoseconds in a signed 64-bit integer,
  and raises \<open>OverflowError\<close> when they do not fit, which is beyond \<open>9223372036\<close> seconds
  either way. Then it raises \<open>ValueError\<close> on a negative length. Then it asks the system to
  sleep, and raises what the system answers if it refuses (an \<open>OSError\<close> for a length that
  takes the clock beyond its range). The loop has no bound, so it is a partial function:
  \<open>None\<close> is the run that polls forever.
\<close>

definition sleep :: "remote \<Rightarrow> int \<Rightarrow> world \<Rightarrow> (py_error + unit) \<times> world" where
  "sleep R secs w =
     (if secs < - 9223372036 \<or> 9223372036 < secs
      then (Inl (OverflowError ''timestamp too large to convert to C _PyTime_t''), w)
      else if secs < 0 then (Inl (ValueError ''sleep length must be non-negative''), w)
      else (case os_sleep R (trace w) secs of
              Some e \<Rightarrow> (Inl e, w)
            | None \<Rightarrow> (Inr (), emit (Sleep secs) w)))"

partial_function (option) poll_loop ::
  "remote \<Rightarrow> string \<Rightarrow> string \<Rightarrow> int \<Rightarrow> int \<Rightarrow> int \<Rightarrow> world
     \<Rightarrow> ((py_error + translation_results) \<times> world) option" where
  "poll_loop R h api_key pid translation_id poll_interval w =
     (case get_job R (trace w) h api_key pid translation_id of
        Inl e \<Rightarrow> Some (Inl e, emit (Request (Get_job h api_key pid translation_id)) w)
      | Inr result \<Rightarrow>
          if status result \<in> set [''done'', ''failed'']
          then Some (Inr result, emit (Request (Get_job h api_key pid translation_id)) w)
          else (case sleep R poll_interval (emit (Request (Get_job h api_key pid translation_id)) w) of
                  (Inl e, w') \<Rightarrow> Some (Inl e, w')
                | (Inr _, w') \<Rightarrow> poll_loop R h api_key pid translation_id poll_interval w'))"

definition wait_for_translation_results ::
  "remote \<Rightarrow> string \<Rightarrow> int \<Rightarrow> int \<Rightarrow> int \<Rightarrow> string option \<Rightarrow> world
     \<Rightarrow> ((py_error + translation_results) \<times> world) option" where
  "wait_for_translation_results R api_key pid translation_id poll_interval host w0 =
     (case get_host host w0 of (h, w1) \<Rightarrow>
        poll_loop R h api_key pid translation_id poll_interval w1)"

subsection \<open>The line differ of the standard library\<close>

text \<open>
  The renderer calls \<open>difflib.Differ().compare\<close>. This is \<open>Differ\<close> and the
  \<open>SequenceMatcher\<close> under it as CPython has them up to 3.12 (\<open>Lib/difflib.py\<close>), in
  the configuration that \<open>Differ()\<close> sets: no junk predicate for lines or characters, so
  the set \<open>bjunk\<close> is empty, and the automatic junk heuristic on, so an element that
  fills more than one percent (plus one) of a sequence of 200 or more is left out of the
  index \<open>b2j\<close>. A matching block is \<open>(i, j, k)\<close>, an opcode \<open>(tag, i1, i2, j1, j2)\<close>.

  Where the definitions come from: \<open>indices_of\<close>, \<open>popular\<close> and \<open>b2j\<close> are what
  \<open>__chain_b\<close> builds. \<open>match_row\<close> is the inner and \<open>match_rows\<close> the outer loop of
  \<open>find_longest_match\<close>, \<open>extend_left\<close> and \<open>extend_right\<close> are its loops that extend
  the block, run first over elements that are not junk and then over junk.
  \<open>matching_loop\<close> is the loop over the queue in \<open>get_matching_blocks\<close> (the head of the
  list is the top of the stack), \<open>collapse\<close> its loop that joins adjacent blocks.
  \<open>opcodes_from\<close> is the loop of \<open>get_opcodes\<close>. \<open>calculate_ratio\<close>, \<open>ratio\<close>,
  \<open>quick_ratio\<close> (with its loop \<open>quick_matches\<close>) and \<open>real_quick_ratio\<close> have their
  names, and so have \<open>dump\<close>, \<open>plain_replace\<close>, \<open>qformat\<close>, \<open>keep_original_ws\<close>,
  \<open>fancy_replace\<close> and \<open>fancy_helper\<close> up to the leading underscore. \<open>synch_step\<close> is
  the body and \<open>synch_search\<close> the two loops of the search for a close pair in
  \<open>_fancy_replace\<close>, \<open>tag_strings\<close> its loop over the opcodes of the two lines.
  \<open>compare\<close> is \<open>Differ.compare\<close>.

  The dictionary \<open>b2j\<close> is the function from an element to the increasing list of its
  positions, empty for a missing key; \<open>j2len\<close> is the function from a position to a length,
  0 for a missing key (the code only reads it through \<open>get(j-1, 0)\<close>, and the key \<open>-1\<close>
  is never present). Similarity ratios are the exact quotients; the floating point values
  of the code compare in the same way for lines shorter than \<open>2^25\<close> characters (two
  different quotients are then further apart than two neighbouring floating point
  numbers, and rounding keeps the order). The four
  tags are a datatype, which leaves no room for the branch \<open>unknown tag\<close>; the assertion
  of \<open>_plain_replace\<close> (both ranges non-empty) holds wherever the function is called, since
  \<open>_fancy_replace\<close> is entered only from a \<open>replace\<close> opcode or from \<open>_fancy_helper\<close>
  with both ranges non-empty. The lemmas in this part are what the termination proofs need.
  What is proved of the differ further down holds whichever pair of lines the search for
  a close pair picks, so it does not rest on the values of the ratios.
\<close>

type_synonym match = "nat \<times> nat \<times> nat"

definition indices_of :: "'a list \<Rightarrow> 'a \<Rightarrow> nat list" where
  "indices_of b elt = filter (\<lambda>i. b ! i = elt) [0..<length b]"

definition popular :: "'a list \<Rightarrow> 'a \<Rightarrow> bool" where
  "popular b elt \<longleftrightarrow> 200 \<le> length b \<and> length b div 100 + 1 < length (indices_of b elt)"

definition b2j :: "'a list \<Rightarrow> 'a \<Rightarrow> nat list" where
  "b2j b elt = (if popular b elt then [] else indices_of b elt)"

definition isbjunk :: "'a list \<Rightarrow> 'a \<Rightarrow> bool" where
  "isbjunk b elt = False"

fun match_row ::
  "(nat \<Rightarrow> nat) \<Rightarrow> nat \<Rightarrow> nat \<Rightarrow> nat \<Rightarrow> nat list \<Rightarrow> (nat \<Rightarrow> nat) \<times> match \<Rightarrow> (nat \<Rightarrow> nat) \<times> match" where
  "match_row j2len i blo bhi [] st = st"
| "match_row j2len i blo bhi (j # js) (newj2len, besti, bestj, bestsize) =
     (if j < blo then match_row j2len i blo bhi js (newj2len, besti, bestj, bestsize)
      else if bhi \<le> j then (newj2len, besti, bestj, bestsize)
      else (let k = (if j = 0 then 0 else j2len (j - 1)) + 1 in
            match_row j2len i blo bhi js
              (newj2len(j := k),
               if bestsize < k then (i + 1 - k, j + 1 - k, k) else (besti, bestj, bestsize))))"

fun match_rows ::
  "'a list \<Rightarrow> 'a list \<Rightarrow> nat \<Rightarrow> nat \<Rightarrow> nat list \<Rightarrow> (nat \<Rightarrow> nat) \<times> match \<Rightarrow> (nat \<Rightarrow> nat) \<times> match" where
  "match_rows a b blo bhi [] st = st"
| "match_rows a b blo bhi (i # is) (j2len, best) =
     match_rows a b blo bhi is (match_row j2len i blo bhi (b2j b (a ! i)) (\<lambda>_. 0, best))"

function extend_left :: "('a \<Rightarrow> bool) \<Rightarrow> 'a list \<Rightarrow> 'a list \<Rightarrow> nat \<Rightarrow> nat \<Rightarrow> match \<Rightarrow> match" where
  "extend_left ok a b alo blo (besti, bestj, bestsize) =
     (if alo < besti \<and> blo < bestj \<and> ok (b ! (bestj - 1)) \<and> a ! (besti - 1) = b ! (bestj - 1)
      then extend_left ok a b alo blo (besti - 1, bestj - 1, bestsize + 1)
      else (besti, bestj, bestsize))"
  by pat_completeness auto
termination
  by (relation "measure (\<lambda>(ok, a, b, alo, blo, besti, bestj, bestsize). besti)") auto

function extend_right :: "('a \<Rightarrow> bool) \<Rightarrow> 'a list \<Rightarrow> 'a list \<Rightarrow> nat \<Rightarrow> nat \<Rightarrow> match \<Rightarrow> match" where
  "extend_right ok a b ahi bhi (besti, bestj, bestsize) =
     (if besti + bestsize < ahi \<and> bestj + bestsize < bhi \<and> ok (b ! (bestj + bestsize))
         \<and> a ! (besti + bestsize) = b ! (bestj + bestsize)
      then extend_right ok a b ahi bhi (besti, bestj, bestsize + 1)
      else (besti, bestj, bestsize))"
  by pat_completeness auto
termination
  by (relation "measure (\<lambda>(ok, a, b, ahi, bhi, besti, bestj, bestsize). ahi - (besti + bestsize))") auto

declare extend_left.simps [simp del] extend_right.simps [simp del]

definition find_longest_match :: "'a list \<Rightarrow> 'a list \<Rightarrow> nat \<Rightarrow> nat \<Rightarrow> nat \<Rightarrow> nat \<Rightarrow> match" where
  "find_longest_match a b alo ahi blo bhi =
     extend_right (isbjunk b) a b ahi bhi
       (extend_left (isbjunk b) a b alo blo
         (extend_right (\<lambda>x. \<not> isbjunk b x) a b ahi bhi
           (extend_left (\<lambda>x. \<not> isbjunk b x) a b alo blo
             (snd (match_rows a b blo bhi [alo..<ahi] (\<lambda>_. 0, (alo, blo, 0)))))))"

definition in_window :: "nat \<Rightarrow> nat \<Rightarrow> nat \<Rightarrow> nat \<Rightarrow> match \<Rightarrow> bool" where
  "in_window alo ahi blo bhi m =
     (case m of (i, j, k) \<Rightarrow>
        alo \<le> i \<and> blo \<le> j \<and> (k = 0 \<and> i = alo \<and> j = blo \<or> i + k \<le> ahi \<and> j + k \<le> bhi))"

definition lens_bounded :: "nat \<Rightarrow> nat \<Rightarrow> nat \<Rightarrow> (nat \<Rightarrow> nat) \<Rightarrow> bool" where
  "lens_bounded alo blo i j2len = (\<forall>j. j2len j \<le> i - alo \<and> j2len j \<le> j + 1 - blo)"

lemma match_row_bounds:
  assumes "lens_bounded alo blo i j2len" and "alo \<le> i"
    and "lens_bounded alo blo (Suc i) newj2len"
    and "in_window alo (Suc i) blo bhi best"
  shows "lens_bounded alo blo (Suc i) (fst (match_row j2len i blo bhi js (newj2len, best)))
       \<and> in_window alo (Suc i) blo bhi (snd (match_row j2len i blo bhi js (newj2len, best)))"
  using assms(3,4)
proof (induction js arbitrary: newj2len best)
  case Nil
  then show ?case by simp
next
  case (Cons j js)
  obtain bi bj bs where best: "best = (bi, bj, bs)" by (cases best)
  show ?case
  proof (cases "j < blo \<or> bhi \<le> j")
    case True
    then show ?thesis using Cons by (auto simp: best)
  next
    case False
    define k where "k = (if j = 0 then 0 else j2len (j - 1)) + 1"
    have p1: "(if j = 0 then 0 else j2len (j - 1)) \<le> i - alo"
      using assms(1) by (simp add: lens_bounded_def)
    have p2: "(if j = 0 then 0 else j2len (j - 1)) \<le> j - blo"
    proof (cases "j = 0")
      case True
      then show ?thesis by simp
    next
      case nz: False
      have "j2len (j - 1) \<le> (j - 1) + 1 - blo"
        using assms(1) by (simp add: lens_bounded_def)
      with nz show ?thesis by simp
    qed
    have k1: "k \<le> Suc i - alo"
      using p1 assms(2) unfolding k_def by linarith
    have k2: "k \<le> j + 1 - blo"
      using p2 False unfolding k_def by linarith
    have lb: "lens_bounded alo blo (Suc i) (newj2len(j := k))"
      using Cons.prems(1) k1 k2 by (auto simp: lens_bounded_def)
    have win: "in_window alo (Suc i) blo bhi (if bs < k then (i + 1 - k, j + 1 - k, k) else (bi, bj, bs))"
      using Cons.prems(2) k1 k2 False assms(2) by (auto simp: in_window_def best)
    have eq: "match_row j2len i blo bhi (j # js) (newj2len, best) =
          match_row j2len i blo bhi js (newj2len(j := k), if bs < k then (i + 1 - k, j + 1 - k, k) else (bi, bj, bs))"
      using False by (simp add: best k_def Let_def)
    show ?thesis unfolding eq by (rule Cons.IH [OF lb win])
  qed
qed

lemma in_window_mono: "in_window alo ahi blo bhi m \<Longrightarrow> ahi \<le> ahi' \<Longrightarrow> in_window alo ahi' blo bhi m"
  by (auto simp: in_window_def)

lemma match_rows_bounds:
  assumes "alo \<le> i" and "i \<le> ahi" and "lens_bounded alo blo i j2len"
    and "in_window alo i blo bhi best"
  shows "in_window alo ahi blo bhi (snd (match_rows a b blo bhi [i..<ahi] (j2len, best)))"
  using assms
proof (induction "ahi - i" arbitrary: i j2len best)
  case 0
  then show ?case by simp
next
  case (Suc n)
  then have lt: "i < ahi" by simp
  have lb0: "lens_bounded alo blo (Suc i) (\<lambda>_. 0)"
    by (simp add: lens_bounded_def)
  have w: "in_window alo (Suc i) blo bhi best"
    using Suc.prems(4) by (rule in_window_mono) simp
  obtain nj best' where r: "match_row j2len i blo bhi (b2j b (a ! i)) (\<lambda>_. 0, best) = (nj, best')"
    by (cases "match_row j2len i blo bhi (b2j b (a ! i)) (\<lambda>_. 0, best)")
  from match_row_bounds [OF Suc.prems(3) Suc.prems(1) lb0 w, where js = "b2j b (a ! i)"] r
  have nj: "lens_bounded alo blo (Suc i) nj" and b': "in_window alo (Suc i) blo bhi best'"
    by simp_all
  have "in_window alo ahi blo bhi (snd (match_rows a b blo bhi [Suc i..<ahi] (nj, best')))"
  proof (rule Suc.hyps(1))
    show "n = ahi - Suc i" using Suc.hyps(2) by simp
    show "alo \<le> Suc i" using Suc.prems(1) by simp
    show "Suc i \<le> ahi" using lt by simp
  qed (rule nj, rule b')
  then show ?case using lt r by (simp add: upt_conv_Cons)
qed

lemma extend_left_bounds:
  "in_window alo ahi blo bhi m \<Longrightarrow> in_window alo ahi blo bhi (extend_left ok a b alo blo m)"
proof (induction ok a b alo blo m rule: extend_left.induct)
  case (1 ok a b alo blo besti bestj bestsize)
  show ?case
  proof (cases "alo < besti \<and> blo < bestj \<and> ok (b ! (bestj - 1)) \<and> a ! (besti - 1) = b ! (bestj - 1)")
    case True
    have "in_window alo ahi blo bhi (besti - 1, bestj - 1, bestsize + 1)"
      using 1(2) True by (auto simp: in_window_def)
    from 1(1) [OF True this] True show ?thesis
      by (subst extend_left.simps) simp
  next
    case False
    then show ?thesis using 1(2) by (subst extend_left.simps) auto
  qed
qed

lemma extend_right_bounds:
  "in_window alo ahi blo bhi m \<Longrightarrow> in_window alo ahi blo bhi (extend_right ok a b ahi bhi m)"
proof (induction ok a b ahi bhi m rule: extend_right.induct)
  case (1 ok a b ahi bhi besti bestj bestsize)
  show ?case
  proof (cases "besti + bestsize < ahi \<and> bestj + bestsize < bhi \<and> ok (b ! (bestj + bestsize))
         \<and> a ! (besti + bestsize) = b ! (bestj + bestsize)")
    case True
    have "in_window alo ahi blo bhi (besti, bestj, bestsize + 1)"
      using 1(2) True by (auto simp: in_window_def)
    from 1(1) [OF True this] True show ?thesis
      by (subst extend_right.simps) simp
  next
    case False
    then show ?thesis using 1(2) by (subst extend_right.simps) auto
  qed
qed

lemma find_longest_match_bounds:
  "in_window alo ahi blo bhi (find_longest_match a b alo ahi blo bhi)"
proof -
  have "in_window alo ahi blo bhi (snd (match_rows a b blo bhi [alo..<ahi] (\<lambda>_. 0, (alo, blo, 0))))"
  proof (cases "alo \<le> ahi")
    case True
    show ?thesis
      by (rule match_rows_bounds [OF le_refl True]) (simp_all add: lens_bounded_def in_window_def)
  next
    case False
    then show ?thesis by (simp add: in_window_def)
  qed
  then show ?thesis
    unfolding find_longest_match_def
    by (intro extend_right_bounds extend_left_bounds)
qed

type_synonym window = "nat \<times> nat \<times> nat \<times> nat"

definition window_size :: "window \<Rightarrow> nat" where
  "window_size q = (case q of (alo, ahi, blo, bhi) \<Rightarrow> (ahi - alo) + (bhi - blo) + 1)"

function matching_loop :: "'a list \<Rightarrow> 'a list \<Rightarrow> window list \<Rightarrow> match list \<Rightarrow> match list" where
  "matching_loop a b [] matching_blocks = matching_blocks"
| "matching_loop a b ((alo, ahi, blo, bhi) # queue) matching_blocks =
     (case find_longest_match a b alo ahi blo bhi of (i, j, k) \<Rightarrow>
        if k \<noteq> 0
        then matching_loop a b
               ((if i + k < ahi \<and> j + k < bhi then [(i + k, ahi, j + k, bhi)] else []) @
                (if alo < i \<and> blo < j then [(alo, i, blo, j)] else []) @ queue)
               (matching_blocks @ [(i, j, k)])
        else matching_loop a b queue matching_blocks)"
  by pat_completeness auto
termination
proof (relation "measure (\<lambda>(a, b, queue, blocks). sum_list (map window_size queue))", goal_cases)
  case 1
  then show ?case by simp
next
  case (2 a b alo ahi blo bhi queue blocks i y j k)
  have "find_longest_match a b alo ahi blo bhi = (i, j, k)"
    using 2(1,2) by simp
  then have "in_window alo ahi blo bhi (i, j, k)"
    using find_longest_match_bounds [of alo ahi blo bhi a b] by simp
  with 2(3) show ?case
    by (auto simp: in_window_def window_size_def)
next
  case (3 a b alo ahi blo bhi queue blocks i y j k)
  then show ?case by (simp add: window_size_def)
qed

declare matching_loop.simps [simp del]

fun collapse :: "match \<Rightarrow> match list \<Rightarrow> match list" where
  "collapse (i1, j1, k1) [] = (if k1 \<noteq> 0 then [(i1, j1, k1)] else [])"
| "collapse (i1, j1, k1) ((i2, j2, k2) # rest) =
     (if i1 + k1 = i2 \<and> j1 + k1 = j2 then collapse (i1, j1, k1 + k2) rest
      else (if k1 \<noteq> 0 then [(i1, j1, k1)] else []) @ collapse (i2, j2, k2) rest)"

definition get_matching_blocks :: "'a list \<Rightarrow> 'a list \<Rightarrow> match list" where
  "get_matching_blocks a b =
     collapse (0, 0, 0) (sort (matching_loop a b [(0, length a, 0, length b)] []))
       @ [(length a, length b, 0)]"

datatype opcode_tag = Replace | Delete | Insert | Equal

type_synonym opcode = "opcode_tag \<times> nat \<times> nat \<times> nat \<times> nat"

fun opcodes_from :: "nat \<Rightarrow> nat \<Rightarrow> match list \<Rightarrow> opcode list" where
  "opcodes_from i j [] = []"
| "opcodes_from i j ((ai, bj, sz) # rest) =
     (if i < ai \<and> j < bj then [(Replace, i, ai, j, bj)]
      else if i < ai then [(Delete, i, ai, j, bj)]
      else if j < bj then [(Insert, i, ai, j, bj)]
      else []) @
     (if sz \<noteq> 0 then [(Equal, ai, ai + sz, bj, bj + sz)] else []) @
     opcodes_from (ai + sz) (bj + sz) rest"

definition get_opcodes :: "'a list \<Rightarrow> 'a list \<Rightarrow> opcode list" where
  "get_opcodes a b = opcodes_from 0 0 (get_matching_blocks a b)"

definition calculate_ratio :: "nat \<Rightarrow> nat \<Rightarrow> rat" where
  "calculate_ratio matches len = (if len \<noteq> 0 then 2 * of_nat matches / of_nat len else 1)"

definition ratio :: "'a list \<Rightarrow> 'a list \<Rightarrow> rat" where
  "ratio a b =
     calculate_ratio (sum_list (map (\<lambda>(i, j, k). k) (get_matching_blocks a b))) (length a + length b)"

fun quick_matches :: "('a \<Rightarrow> int) \<Rightarrow> ('a \<Rightarrow> int option) \<Rightarrow> 'a list \<Rightarrow> nat" where
  "quick_matches fullbcount avail [] = 0"
| "quick_matches fullbcount avail (elt # rest) =
     (let numb = (case avail elt of Some n \<Rightarrow> n | None \<Rightarrow> fullbcount elt)
      in (if 0 < numb then 1 else 0) + quick_matches fullbcount (avail(elt \<mapsto> numb - 1)) rest)"

definition quick_ratio :: "'a list \<Rightarrow> 'a list \<Rightarrow> rat" where
  "quick_ratio a b =
     calculate_ratio (quick_matches (\<lambda>elt. int (count_list b elt)) Map.empty a) (length a + length b)"

definition real_quick_ratio :: "'a list \<Rightarrow> 'a list \<Rightarrow> rat" where
  "real_quick_ratio a b = calculate_ratio (min (length a) (length b)) (length a + length b)"

definition dump :: "string \<Rightarrow> py_str list \<Rightarrow> nat \<Rightarrow> nat \<Rightarrow> py_str list" where
  "dump tag x lo hi = map (\<lambda>i. str (tag @ '' '') @ x ! i) [lo..<hi]"

definition plain_replace :: "py_str list \<Rightarrow> nat \<Rightarrow> nat \<Rightarrow> py_str list \<Rightarrow> nat \<Rightarrow> nat \<Rightarrow> py_str list" where
  "plain_replace a alo ahi b blo bhi =
     (if bhi - blo < ahi - alo then dump ''+'' b blo bhi @ dump ''-'' a alo ahi
      else dump ''-'' a alo ahi @ dump ''+'' b blo bhi)"

type_synonym synch = "rat \<times> (nat \<times> nat) option \<times> (nat \<times> nat) option"

definition synch_step :: "py_str list \<Rightarrow> py_str list \<Rightarrow> nat \<Rightarrow> nat \<Rightarrow> synch \<Rightarrow> synch" where
  "synch_step a b j i st =
     (case st of (best_ratio, best, eq) \<Rightarrow>
        if a ! i = b ! j then (best_ratio, best, if eq = None then Some (i, j) else eq)
        else if best_ratio < real_quick_ratio (a ! i) (b ! j)
              \<and> best_ratio < quick_ratio (a ! i) (b ! j)
              \<and> best_ratio < ratio (a ! i) (b ! j)
        then (ratio (a ! i) (b ! j), Some (i, j), eq)
        else (best_ratio, best, eq))"

definition synch_search :: "py_str list \<Rightarrow> nat \<Rightarrow> nat \<Rightarrow> py_str list \<Rightarrow> nat \<Rightarrow> nat \<Rightarrow> synch" where
  "synch_search a alo ahi b blo bhi =
     fold (\<lambda>j. fold (synch_step a b j) [alo..<ahi]) [blo..<bhi] (74 / 100, None, None)"

fun tag_strings :: "opcode list \<Rightarrow> py_str \<times> py_str" where
  "tag_strings [] = ([], [])"
| "tag_strings ((tag, ai1, ai2, bj1, bj2) # rest) =
     (case tag_strings rest of (atags, btags) \<Rightarrow>
        (case tag of
           Replace \<Rightarrow> (concat (replicate (ai2 - ai1) (str ''^'')) @ atags,
                       concat (replicate (bj2 - bj1) (str ''^'')) @ btags)
         | Delete \<Rightarrow> (concat (replicate (ai2 - ai1) (str ''-'')) @ atags, btags)
         | Insert \<Rightarrow> (atags, concat (replicate (bj2 - bj1) (str ''+'')) @ btags)
         | Equal \<Rightarrow> (concat (replicate (ai2 - ai1) (str '' '')) @ atags,
                     concat (replicate (bj2 - bj1) (str '' '')) @ btags)))"

text \<open>The code points for which \<open>str.isspace\<close> holds of the one-character string.\<close>

definition isspace :: "nat \<Rightarrow> bool" where
  "isspace c \<longleftrightarrow>
     c \<in> {0x09, 0x0A, 0x0B, 0x0C, 0x0D, 0x1C, 0x1D, 0x1E, 0x1F, 0x20, 0x85, 0xA0, 0x1680}
     \<or> (0x2000 \<le> c \<and> c \<le> 0x200A)
     \<or> c \<in> {0x2028, 0x2029, 0x202F, 0x205F, 0x3000}"

definition rstrip :: "py_str \<Rightarrow> py_str" where
  "rstrip s = rev (dropWhile isspace (rev s))"

definition keep_original_ws :: "py_str \<Rightarrow> py_str \<Rightarrow> py_str" where
  "keep_original_ws s tag_s =
     map (\<lambda>(c, tag_c). if [tag_c] = str '' '' \<and> isspace c then c else tag_c) (zip s tag_s)"

definition qformat :: "py_str \<Rightarrow> py_str \<Rightarrow> py_str \<Rightarrow> py_str \<Rightarrow> py_str list" where
  "qformat aline bline atags btags =
     (let atags = rstrip (keep_original_ws aline atags);
          btags = rstrip (keep_original_ws bline btags)
      in [str ''- '' @ aline] @
         (if atags \<noteq> [] then [str ''? '' @ atags @ str ''\<newline>''] else []) @
         [str ''+ '' @ bline] @
         (if btags \<noteq> [] then [str ''? '' @ btags @ str ''\<newline>''] else []))"

definition synch_in_ranges :: "nat \<Rightarrow> nat \<Rightarrow> nat \<Rightarrow> nat \<Rightarrow> synch \<Rightarrow> bool" where
  "synch_in_ranges alo ahi blo bhi st =
     (case st of (best_ratio, best, eq) \<Rightarrow>
        (\<forall>i j. best = Some (i, j) \<longrightarrow> alo \<le> i \<and> i < ahi \<and> blo \<le> j \<and> j < bhi) \<and>
        (\<forall>i j. eq = Some (i, j) \<longrightarrow> alo \<le> i \<and> i < ahi \<and> blo \<le> j \<and> j < bhi) \<and>
        74 / 100 \<le> best_ratio \<and>
        (74 / 100 < best_ratio \<longrightarrow> best \<noteq> None))"

lemma fold_invariant:
  assumes "P s" and "\<And>x s. x \<in> set xs \<Longrightarrow> P s \<Longrightarrow> P (f x s)"
  shows "P (fold f xs s)"
  using assms by (induction xs arbitrary: s) auto

lemma synch_step_in_ranges:
  assumes "synch_in_ranges alo ahi blo bhi st" and "alo \<le> i" and "i < ahi" and "blo \<le> j" and "j < bhi"
  shows "synch_in_ranges alo ahi blo bhi (synch_step a b j i st)"
  using assms by (auto simp: synch_in_ranges_def synch_step_def split: prod.splits)

lemma synch_search_in_ranges:
  "synch_in_ranges alo ahi blo bhi (synch_search a alo ahi b blo bhi)"
  unfolding synch_search_def
proof (rule fold_invariant [where P = "synch_in_ranges alo ahi blo bhi"])
  show "synch_in_ranges alo ahi blo bhi (74 / 100, None, None)"
    by (simp add: synch_in_ranges_def)
next
  fix j st
  assume j: "j \<in> set [blo..<bhi]" and st: "synch_in_ranges alo ahi blo bhi st"
  show "synch_in_ranges alo ahi blo bhi (fold (synch_step a b j) [alo..<ahi] st)"
  proof (rule fold_invariant [where P = "synch_in_ranges alo ahi blo bhi", OF st])
    fix i st'
    assume "i \<in> set [alo..<ahi]" and "synch_in_ranges alo ahi blo bhi st'"
    then show "synch_in_ranges alo ahi blo bhi (synch_step a b j i st')"
      using j by (intro synch_step_in_ranges) auto
  qed
qed

lemma synch_search_eq:
  "synch_search a alo ahi b blo bhi = (r, best, Some (i, j)) \<Longrightarrow>
     alo \<le> i \<and> i < ahi \<and> blo \<le> j \<and> j < bhi"
  using synch_search_in_ranges [of alo ahi blo bhi a b] by (simp add: synch_in_ranges_def)

lemma synch_search_best:
  "synch_search a alo ahi b blo bhi = (r, Some (i, j), eq) \<Longrightarrow>
     alo \<le> i \<and> i < ahi \<and> blo \<le> j \<and> j < bhi"
  using synch_search_in_ranges [of alo ahi blo bhi a b] by (simp add: synch_in_ranges_def)

function fancy_replace :: "py_str list \<Rightarrow> nat \<Rightarrow> nat \<Rightarrow> py_str list \<Rightarrow> nat \<Rightarrow> nat \<Rightarrow> py_str list"
  and fancy_helper :: "py_str list \<Rightarrow> nat \<Rightarrow> nat \<Rightarrow> py_str list \<Rightarrow> nat \<Rightarrow> nat \<Rightarrow> py_str list" where
  "fancy_replace a alo ahi b blo bhi =
     (case synch_search a alo ahi b blo bhi of (best_ratio, best, eq) \<Rightarrow>
        if best_ratio < 75 / 100 then
          (case eq of
             None \<Rightarrow> plain_replace a alo ahi b blo bhi
           | Some (eqi, eqj) \<Rightarrow>
               fancy_helper a alo eqi b blo eqj @
               [str ''  '' @ a ! eqi] @
               fancy_helper a (eqi + 1) ahi b (eqj + 1) bhi)
        else
          (case best of
             None \<Rightarrow> []
           | Some (best_i, best_j) \<Rightarrow>
               fancy_helper a alo best_i b blo best_j @
               (case tag_strings (get_opcodes (a ! best_i) (b ! best_j)) of (atags, btags) \<Rightarrow>
                  qformat (a ! best_i) (b ! best_j) atags btags) @
               fancy_helper a (best_i + 1) ahi b (best_j + 1) bhi))"
| "fancy_helper a alo ahi b blo bhi =
     (if alo < ahi then
        (if blo < bhi then fancy_replace a alo ahi b blo bhi
         else dump ''-'' a alo ahi)
      else if blo < bhi then dump ''+'' b blo bhi
      else [])"
  by pat_completeness auto
termination
  apply (relation "measure (\<lambda>x. case x of
           Inl (a, alo, ahi, b, blo, bhi) \<Rightarrow> 2 * ((ahi - alo) + (bhi - blo))
         | Inr (a, alo, ahi, b, blo, bhi) \<Rightarrow> 2 * ((ahi - alo) + (bhi - blo)) + 1)")
     apply simp_all
  subgoal for a alo ahi b blo bhi x y xa ya x2 xb yb
    using synch_search_eq [of a alo ahi b blo bhi x xa xb yb] by auto
  subgoal for a alo ahi b blo bhi x y xa ya x2 xb yb
    using synch_search_eq [of a alo ahi b blo bhi x xa xb yb] by auto
  subgoal for a alo ahi b blo bhi x y xa ya x2 xb yb
    using synch_search_best [of a alo ahi b blo bhi x xb yb ya] by auto
  subgoal for a alo ahi b blo bhi x y xa ya x2 xb yb
    using synch_search_best [of a alo ahi b blo bhi x xb yb ya] by auto
  done

declare fancy_replace.simps [simp del] fancy_helper.simps [simp del]

definition compare :: "py_str list \<Rightarrow> py_str list \<Rightarrow> py_str list" where
  "compare a b =
     concat (map (\<lambda>(tag, alo, ahi, blo, bhi).
                case tag of
                  Replace \<Rightarrow> fancy_replace a alo ahi b blo bhi
                | Delete \<Rightarrow> dump ''-'' a alo ahi
                | Insert \<Rightarrow> dump ''+'' b blo bhi
                | Equal \<Rightarrow> dump '' '' a alo ahi)
             (get_opcodes a b))"

subsection \<open>The diff renderer\<close>

text \<open>
  \<open>str.splitlines()\<close>: a line ends at a line boundary, \<open>\r\n\<close> counts as one, and no
  empty line follows the last boundary. The boundaries are the code points \<open>\n\<close>, \<open>\v\<close>,
  \<open>\f\<close>, \<open>\r\<close>, \<open>\x1c\<close>, \<open>\x1d\<close>, \<open>\x1e\<close>, \<open>\x85\<close>, \<open>U+2028\<close> and \<open>U+2029\<close>.
\<close>

definition is_linebreak :: "nat \<Rightarrow> bool" where
  "is_linebreak c \<longleftrightarrow> c \<in> {0x0A, 0x0B, 0x0C, 0x0D, 0x1C, 0x1D, 0x1E, 0x85, 0x2028, 0x2029}"

fun splitlines_from :: "py_str \<Rightarrow> py_str \<Rightarrow> py_str list" where
  "splitlines_from line [] = (if line = [] then [] else [line])"
| "splitlines_from line (c # cs) =
     (if is_linebreak c then
        line # (case cs of
                  [] \<Rightarrow> splitlines_from [] cs
                | c' # cs' \<Rightarrow>
                    if c = 0x0D \<and> c' = 0x0A then splitlines_from [] cs'
                    else splitlines_from [] cs)
      else splitlines_from (line @ [c]) cs)"

definition splitlines :: "py_str \<Rightarrow> py_str list" where
  "splitlines s = splitlines_from [] s"

definition line_div :: "string \<Rightarrow> py_str \<Rightarrow> py_str" where
  \<open>line_div cls text = str (''<div class="line '' @ cls @ ''">'') @ text @ str ''</div>''\<close>

function render_lines ::
  "py_str list \<Rightarrow> nat \<Rightarrow> py_str list \<times> py_str list \<Rightarrow> py_str list \<times> py_str list" where
  "render_lines diff i (source_html, target_html) =
     (if i < length diff then
        (let line = diff ! i in
         if prefix (str ''  '') line then
           render_lines diff (i + 1)
             (source_html @ [line_div ''unchanged'' (drop 2 line)],
              target_html @ [line_div ''unchanged'' (drop 2 line)])
         else if prefix (str ''- '') line then
           render_lines diff (i + 1) (source_html @ [line_div ''removed'' (drop 2 line)], target_html)
         else if prefix (str ''+ '') line then
           render_lines diff (i + 1) (source_html, target_html @ [line_div ''added'' (drop 2 line)])
         else if prefix (str ''? '') line then
           render_lines diff (i + 1) (source_html, target_html)
         else render_lines diff (i + 1) (source_html, target_html))
      else (source_html, target_html))"
  by pat_completeness auto
termination
  by (relation "measure (\<lambda>(diff, i, cols). length diff - i)") auto

declare render_lines.simps [simp del]

text \<open>
  The subscript \<open>model['target_sql']\<close> raises \<open>KeyError\<close> for a missing key, and
  \<open>x or ''\<close> is the empty text for \<open>None\<close> and for the empty text. The two columns are
  the lists \<open>source_html\<close> and \<open>target_html\<close> after the loop over the lines of the
  differ.
\<close>

definition subscript_target_sql :: "translated_model \<Rightarrow> py_error + py_str option" where
  "subscript_target_sql model =
     (case target_sql model of
        Absent \<Rightarrow> Inl (KeyError ''target_sql'')
      | Null \<Rightarrow> Inr None
      | Text t \<Rightarrow> Inr (Some t))"

definition or_empty :: "py_str option \<Rightarrow> py_str" where
  "or_empty x = (case x of None \<Rightarrow> [] | Some t \<Rightarrow> if t = [] then [] else t)"

definition render_columns :: "py_str \<Rightarrow> py_str \<Rightarrow> py_str list \<times> py_str list" where
  "render_columns source_text target_text =
     (let source_lines = splitlines source_text;
          target_lines = splitlines target_text
      in render_lines (compare source_lines target_lines) 0 ([], []))"

definition page_head :: py_str where
  \<open>page_head = str (
     ''\<newline>'' @
     ''    <style>\<newline>'' @
     ''        .sql-container {\<newline>'' @
     ''            display: flex;\<newline>'' @
     ''            gap: 20px;\<newline>'' @
     ''            font-family: monospace;\<newline>'' @
     ''        }\<newline>'' @
     ''        .sql-column {\<newline>'' @
     ''            flex: 1;\<newline>'' @
     ''            border: 1px solid #ddd;\<newline>'' @
     ''            padding: 15px;\<newline>'' @
     ''            background-color: #f5f5f5;\<newline>'' @
     ''            overflow-x: auto;\<newline>'' @
     ''        }\<newline>'' @
     ''        .sql-column h3 {\<newline>'' @
     ''            margin-top: 0;\<newline>'' @
     ''            color: #333;\<newline>'' @
     ''            font-family: sans-serif;\<newline>'' @
     ''        }\<newline>'' @
     ''        .line {\<newline>'' @
     ''            font-size: 12px;\<newline>'' @
     ''            line-height: 1.6;\<newline>'' @
     ''            padding: 2px 4px;\<newline>'' @
     ''            white-space: pre-wrap;\<newline>'' @
     ''        }\<newline>'' @
     ''        .unchanged {\<newline>'' @
     ''            background-color: transparent;\<newline>'' @
     ''        }\<newline>'' @
     ''        .removed {\<newline>'' @
     ''            background-color: #ffecec;\<newline>'' @
     ''            color: #d73a49;\<newline>'' @
     ''        }\<newline>'' @
     ''        .added {\<newline>'' @
     ''            background-color: #e6ffec;\<newline>'' @
     ''            color: #22863a;\<newline>'' @
     ''        }\<newline>'' @
     ''    </style>\<newline>'' @
     ''\<newline>'' @
     ''    <p>Translation Status: <span class="status">'')\<close>

definition page_source_column :: py_str where
  \<open>page_source_column = str (
     ''</span></p>\<newline>'' @
     ''    <div class="sql-container">\<newline>'' @
     ''        <div class="sql-column">\<newline>'' @
     ''            <h3>Snowflake SQL</h3>\<newline>'' @
     ''            '')\<close>

definition page_target_column :: py_str where
  \<open>page_target_column = str (
     ''\<newline>'' @
     ''        </div>\<newline>'' @
     ''        <div class="sql-column">\<newline>'' @
     ''            <h3>Databricks SQL</h3>\<newline>'' @
     ''            '')\<close>

definition page_foot :: py_str where
  \<open>page_foot = str (
     ''\<newline>'' @
     ''        </div>\<newline>'' @
     ''    </div>\<newline>'' @
     ''    '')\<close>

definition render_translated_model_as_html :: "translated_model \<Rightarrow> py_error + py_str" where
  "render_translated_model_as_html model =
     (case subscript_target_sql model of
        Inl e \<Rightarrow> Inl e
      | Inr value \<Rightarrow>
          (case render_columns (source_sql model) (or_empty value) of
             (source_html, target_html) \<Rightarrow>
               Inr (page_head @ translation_status model @ page_source_column @
                    concat source_html @ page_target_column @ concat target_html @ page_foot)))"

subsection \<open>The report builder\<close>

definition section_open :: py_str where
  \<open>section_open = str (
     ''\<newline>'' @
     ''        <button class="collapsible" onclick="toggleCollapse(this)">\<newline>'' @
     ''            '')\<close>

definition section_middle :: py_str where
  \<open>section_middle = str (
     ''\<newline>'' @
     ''        </button>\<newline>'' @
     ''        <div class="content">\<newline>'' @
     ''            '')\<close>

definition section_close :: py_str where
  \<open>section_close = str (
     ''\<newline>'' @
     ''        </div>\<newline>'' @
     ''        '')\<close>

definition style :: py_str where
  \<open>style = str (
     ''\<newline>'' @
     ''    <style>\<newline>'' @
     ''        .collapsible {\<newline>'' @
     ''            background-color: #f1f1f1;\<newline>'' @
     ''            color: #333;\<newline>'' @
     ''            cursor: pointer;\<newline>'' @
     ''            padding: 18px;\<newline>'' @
     ''            width: 100%;\<newline>'' @
     ''            border: 1px solid #ddd;\<newline>'' @
     ''            text-align: left;\<newline>'' @
     ''            outline: none;\<newline>'' @
     ''            font-size: 16px;\<newline>'' @
     ''            font-family: sans-serif;\<newline>'' @
     ''            margin-top: 10px;\<newline>'' @
     ''            transition: background-color 0.3s;\<newline>'' @
     ''        }\<newline>'' @
     ''        .collapsible:hover {\<newline>'' @
     ''            background-color: #e0e0e0;\<newline>'' @
     ''        }\<newline>'' @
     ''        .collapsible.active {\<newline>'' @
     ''            background-color: #d0d0d0;\<newline>'' @
     ''        }\<newline>'' @
     ''        .collapsible::before {\<newline>'' @
     ''            content: '' @
     [CHR 0x27]) @
     [0x25B6] @
     str (
     '' '' @
     [CHR 0x27] @
     '';\<newline>'' @
     ''            display: inline-block;\<newline>'' @
     ''            margin-right: 8px;\<newline>'' @
     ''            transition: transform 0.3s;\<newline>'' @
     ''        }\<newline>'' @
     ''        .collapsible.active::before {\<newline>'' @
     ''            transform: rotate(90deg);\<newline>'' @
     ''        }\<newline>'' @
     ''        .content {\<newline>'' @
     ''            padding: 0 18px;\<newline>'' @
     ''            max-height: 0;\<newline>'' @
     ''            overflow: hidden;\<newline>'' @
     ''            transition: max-height 0.3s ease-out;\<newline>'' @
     ''            background-color: white;\<newline>'' @
     ''        }\<newline>'' @
     ''        .content.active {\<newline>'' @
     ''            max-height: 10000px;\<newline>'' @
     ''            padding: 18px;\<newline>'' @
     ''        }\<newline>'' @
     ''    </style>\<newline>'' @
     ''    '')\<close>

definition script :: py_str where
  \<open>script = str (
     ''\<newline>'' @
     ''    <script>\<newline>'' @
     ''        function toggleCollapse(element) {\<newline>'' @
     ''            element.classList.toggle('' @
     [CHR 0x27] @
     ''active'' @
     [CHR 0x27] @
     '');\<newline>'' @
     ''            const content = element.nextElementSibling;\<newline>'' @
     ''            content.classList.toggle('' @
     [CHR 0x27] @
     ''active'' @
     [CHR 0x27] @
     '');\<newline>'' @
     ''        }\<newline>'' @
     ''    </script>\<newline>'' @
     ''    '')\<close>

text \<open>
  The loop over the models appends one section per model; a model that the renderer
  fails on ends the loop and the report builder with that exception.
\<close>

definition model_section :: "translated_model \<Rightarrow> py_error + py_str" where
  "model_section model =
     (case render_translated_model_as_html model of
        Inl e \<Rightarrow> Inl e
      | Inr rendered \<Rightarrow>
          Inr (section_open @ asset_name model @ section_middle @ rendered @ section_close))"

fun model_sections :: "translated_model list \<Rightarrow> py_error + py_str list" where
  "model_sections [] = Inr []"
| "model_sections (model # models) =
     (case model_section model of
        Inl e \<Rightarrow> Inl e
      | Inr section \<Rightarrow>
          (case model_sections models of
             Inl e \<Rightarrow> Inl e
           | Inr html \<Rightarrow> Inr (section # html)))"

definition translation_results_html :: "translation_results \<Rightarrow> py_error + py_str" where
  "translation_results_html results =
     (case model_sections (translated_models results) of
        Inl e \<Rightarrow> Inl e
      | Inr html \<Rightarrow>
          if translated_models results = [] then Inr (str ''No queries were translated.'')
          else Inr (concat ((style @ script) # html)))"

subsection \<open>The operations of the notebook\<close>

text \<open>
  \<open>view_translation_results_as_html\<close> polls every 5 seconds, prints, and builds the
  report; an exception of the report builder comes after the print. The last operation
  calls it without a host, so it uses the cached one, and hands the report to the display
  of the notebook. Both contain the polling loop, so \<open>None\<close> is again the run that never
  ends.
\<close>

definition view_translation_results_as_html ::
  "remote \<Rightarrow> string \<Rightarrow> int \<Rightarrow> int \<Rightarrow> string option \<Rightarrow> world \<Rightarrow> ((py_error + py_str) \<times> world) option" where
  "view_translation_results_as_html R api_key pid translation_id host w0 =
     (case get_host host w0 of (h, w1) \<Rightarrow>
        (case wait_for_translation_results R api_key pid translation_id 5 (Some h)
                (emit (Print ''Waiting for Translation Results...'') w1) of
           None \<Rightarrow> None
         | Some (Inl e, w2) \<Rightarrow> Some (Inl e, w2)
         | Some (Inr results, w2) \<Rightarrow>
             Some (translation_results_html results, emit (Print ''Translation Results:'') w2)))"

definition translate_queries_and_render_results ::
  "remote \<Rightarrow> string list \<Rightarrow> string option \<Rightarrow> string option \<Rightarrow> world \<Rightarrow> ((py_error + unit) \<times> world) option" where
  "translate_queries_and_render_results R queries org_token host w0 =
     (case get_current_api_key R org_token host w0 of
        (Inl e, w1) \<Rightarrow> Some (Inl e, w1)
      | (Inr None, w1) \<Rightarrow>
          Some (Inl (ValueError
            ''API key is not set. Please call create_organization or set the API key manually.''), w1)
      | (Inr (Some api_key), w1) \<Rightarrow>
          (case translate_queries R api_key queries host w1 of
             (Inl e, w2) \<Rightarrow> Some (Inl e, w2)
           | (Inr (pid, translation_id), w2) \<Rightarrow>
               (case view_translation_results_as_html R api_key pid translation_id None w2 of
                  None \<Rightarrow> None
                | Some (Inl e, w3) \<Rightarrow> Some (Inl e, w3)
                | Some (Inr html, w3) \<Rightarrow> Some (Inr (), emit (Display html) w3))))"

subsection \<open>Definitions used to state the properties\<close>

text \<open>A run of calls of \<open>get_host\<close>, in order, each with the host it is given.\<close>

fun get_host_calls :: "string option list \<Rightarrow> world \<Rightarrow> string list \<times> world" where
  "get_host_calls [] w = ([], w)"
| "get_host_calls (host # hosts) w =
     (case get_host host w of (r, w') \<Rightarrow>
        case get_host_calls hosts w' of (rs, w'') \<Rightarrow> (r # rs, w''))"

text \<open>
  In the words of the specification: the most recently supplied explicit host, if one
  exists, and the host that a call without a host then uses.
\<close>

definition explicit_hosts :: "string option list \<Rightarrow> string list" where
  "explicit_hosts hosts = concat (map (\<lambda>h. case h of Some x \<Rightarrow> [x] | None \<Rightarrow> []) hosts)"

definition most_recent_explicit :: "string option list \<Rightarrow> string option" where
  "most_recent_explicit hosts =
     (if explicit_hosts hosts = [] then None else Some (last (explicit_hosts hosts)))"

definition host_in_use :: "string option list \<Rightarrow> string" where
  "host_in_use hosts = (case most_recent_explicit hosts of Some h \<Rightarrow> h | None \<Rightarrow> DEFAULT_HOST)"

text \<open>The number a decimal text denotes, to say that \<open>str_nat\<close> writes the number.\<close>

definition dec_value :: "string \<Rightarrow> nat" where
  "dec_value s = foldl (\<lambda>acc c. 10 * acc + (of_char c - 48)) 0 s"

text \<open>
  The events after \<open>n\<close> rounds of the polling loop that did not end it: a fetch and a
  sleep each. Counting the fetches of a job and the sleeps in a list of events.
\<close>

definition poll_trace :: "event list \<Rightarrow> request \<Rightarrow> int \<Rightarrow> nat \<Rightarrow> event list" where
  "poll_trace t req secs n = t @ concat (replicate n [Request req, Sleep secs])"

definition job_fetches :: "event list \<Rightarrow> nat" where
  "job_fetches t =
     length (filter (\<lambda>r. case r of Get_job _ _ _ _ \<Rightarrow> True | _ \<Rightarrow> False) (requests t))"

definition sleeps :: "event list \<Rightarrow> nat" where
  "sleeps t = length (filter (\<lambda>e. case e of Sleep _ \<Rightarrow> True | _ \<Rightarrow> False) t)"

text \<open>
  A sleep that goes through: the interpreter accepts the length (not negative, and its
  nanoseconds fit into 64 bits) and the system does not refuse it after the events \<open>tr\<close>.
  A round of the loop that goes on: the fetch after the events \<open>tr\<close> answers with a
  status other than \<open>done\<close> and \<open>failed\<close>, and the sleep after it goes through.
\<close>

definition sleep_accepted :: "remote \<Rightarrow> int \<Rightarrow> event list \<Rightarrow> bool" where
  "sleep_accepted R secs tr \<longleftrightarrow> 0 \<le> secs \<and> secs \<le> 9223372036 \<and> os_sleep R tr secs = None"

definition pending_round ::
  "remote \<Rightarrow> string \<Rightarrow> string \<Rightarrow> int \<Rightarrow> int \<Rightarrow> int \<Rightarrow> event list \<Rightarrow> bool" where
  "pending_round R h k p t secs tr \<longleftrightarrow>
     (\<exists>r. get_job R tr h k p t = Inr r \<and> status r \<notin> {''done'', ''failed''}) \<and>
     sleep_accepted R secs (tr @ [Request (Get_job h k p t)])"

definition returned_terminal ::
  "remote \<Rightarrow> string \<Rightarrow> string \<Rightarrow> int \<Rightarrow> int \<Rightarrow> int \<Rightarrow> world
     \<Rightarrow> (py_error + translation_results) \<times> world \<Rightarrow> bool" where
  "returned_terminal R h k p t secs w y =
     (\<forall>res w'. y = (Inr res, w') \<longrightarrow> status res \<in> {''done'', ''failed''} \<and>
        (\<exists>w0. w' = emit (Request (Get_job h k p t)) w0 \<and> get_job R (trace w0) h k p t = Inr res))"

definition raised_by_call ::
  "remote \<Rightarrow> string \<Rightarrow> string \<Rightarrow> int \<Rightarrow> int \<Rightarrow> int \<Rightarrow> world
     \<Rightarrow> (py_error + translation_results) \<times> world \<Rightarrow> bool" where
  "raised_by_call R h k p t secs w y =
     (\<forall>e w'. y = (Inl e, w') \<longrightarrow>
        (\<exists>tr. get_job R tr h k p t = Inl e) \<or> (\<exists>w0. sleep R secs w0 = (Inl e, w0)))"

definition never_terminal ::
  "remote \<Rightarrow> string \<Rightarrow> string \<Rightarrow> int \<Rightarrow> int \<Rightarrow> int \<Rightarrow> world \<Rightarrow> bool" where
  "never_terminal R h k p t secs w =
     (\<forall>i. pending_round R h k p t secs (poll_trace (trace w) (Get_job h k p t) secs i))"

definition keeps_host :: "world \<Rightarrow> (py_error + translation_results) \<times> world \<Rightarrow> bool" where
  "keeps_host w y \<longleftrightarrow> notebook_host (snd y) = notebook_host w"

text \<open>
  A service for concrete runs: it answers the \<open>n\<close>-th fetch of a job with the \<open>n\<close>-th
  entry of a script, the listing of data sources with a fixed list, and fails elsewhere.
  Its system never refuses a sleep.
\<close>

definition scripted_remote :: "data_source list \<Rightarrow> translation_results list \<Rightarrow> remote" where
  "scripted_remote dss answers =
     \<lparr>post_org = (\<lambda>t h tok. Inl (RemoteError ''unscripted'')),
      get_data_sources = (\<lambda>t h k. Inr dss),
      post_project = (\<lambda>t h k payload. Inl (RemoteError ''unscripted'')),
      post_files = (\<lambda>t h k p files. Inl (RemoteError ''unscripted'')),
      post_translate = (\<lambda>t h k p. Inl (RemoteError ''unscripted'')),
      get_job = (\<lambda>t h k p tid.
        if job_fetches t < length answers then Inr (answers ! job_fetches t)
        else Inl (RemoteError ''unscripted'')),
      os_sleep = (\<lambda>t secs. None)\<rparr>"

text \<open>
  The diff renderer. A line of a diff stands for a line of the first sequence when it
  begins with two blanks or with \<open>"- "\<close>, and for a line of the second when it begins with
  two blanks or with \<open>"+ "\<close>; the line it stands for is what follows the two characters.
  The two sides of a diff are the lines it stands for, in order. The class that the
  renderer gives a line in the source and in the target column.
\<close>

definition is_source_line :: "py_str \<Rightarrow> bool" where
  "is_source_line l = (prefix (str ''  '') l \<or> prefix (str ''- '') l)"

definition is_target_line :: "py_str \<Rightarrow> bool" where
  "is_target_line l = (prefix (str ''  '') l \<or> prefix (str ''+ '') l)"

definition source_side :: "py_str list \<Rightarrow> py_str list" where
  "source_side diff = map (drop 2) (filter is_source_line diff)"

definition target_side :: "py_str list \<Rightarrow> py_str list" where
  "target_side diff = map (drop 2) (filter is_target_line diff)"

definition source_class :: "py_str \<Rightarrow> string" where
  "source_class l = (if prefix (str ''  '') l then ''unchanged'' else ''removed'')"

definition target_class :: "py_str \<Rightarrow> string" where
  "target_class l = (if prefix (str ''  '') l then ''unchanged'' else ''added'')"

text \<open>
  The target text of a model as the renderer takes it, when the key is there: the empty
  text for null.
\<close>

definition target_text :: "translated_model \<Rightarrow> py_str option" where
  "target_text model =
     (case target_sql model of Absent \<Rightarrow> None | Null \<Rightarrow> Some [] | Text t \<Rightarrow> Some t)"

text \<open>
  The part of a sequence between two positions. A block \<open>(i, j, k)\<close> matches when the
  \<open>k\<close> elements from \<open>i\<close> in the first sequence are those from \<open>j\<close> in the second.
  Blocks are valid from \<open>(i, j)\<close> on when they match and each begins where the one before
  ends or later, in both sequences. The lines that \<open>compare\<close> writes for one opcode.
\<close>

definition slice :: "'a list \<Rightarrow> nat \<Rightarrow> nat \<Rightarrow> 'a list" where
  "slice x lo hi = map ((!) x) [lo..<hi]"

definition matches :: "'a list \<Rightarrow> 'a list \<Rightarrow> match \<Rightarrow> bool" where
  "matches a b m = (case m of (i, j, k) \<Rightarrow> \<forall>d<k. a ! (i + d) = b ! (j + d))"

fun valid_blocks :: "'a list \<Rightarrow> 'a list \<Rightarrow> nat \<Rightarrow> nat \<Rightarrow> match list \<Rightarrow> bool" where
  "valid_blocks a b i j [] = True"
| "valid_blocks a b i j ((ai, bj, sz) # rest) =
     (i \<le> ai \<and> j \<le> bj \<and> matches a b (ai, bj, sz) \<and> valid_blocks a b (ai + sz) (bj + sz) rest)"

fun blocks_end :: "nat \<Rightarrow> nat \<Rightarrow> match list \<Rightarrow> nat \<times> nat" where
  "blocks_end i j [] = (i, j)"
| "blocks_end i j ((ai, bj, sz) # rest) = blocks_end (ai + sz) (bj + sz) rest"

definition emit_opcode :: "py_str list \<Rightarrow> py_str list \<Rightarrow> opcode \<Rightarrow> py_str list" where
  "emit_opcode a b op =
     (case op of (tag, alo, ahi, blo, bhi) \<Rightarrow>
        case tag of
          Replace \<Rightarrow> fancy_replace a alo ahi b blo bhi
        | Delete \<Rightarrow> dump ''-'' a alo ahi
        | Insert \<Rightarrow> dump ''+'' b blo bhi
        | Equal \<Rightarrow> dump '' '' a alo ahi)"

text \<open>
  Invariants of the differ: the pair of equal lines that the search for a close pair
  keeps is a pair of equal lines; the run lengths of \<open>find_longest_match\<close> are lengths
  of runs of equal elements; the blocks and the windows of the worklist lie apart from
  each other in both sequences, and a block found in a window lies in it.
\<close>

definition synch_equal :: "py_str list \<Rightarrow> py_str list \<Rightarrow> synch \<Rightarrow> bool" where
  "synch_equal a b st = (case st of (best_ratio, best, eq) \<Rightarrow> \<forall>i j. eq = Some (i, j) \<longrightarrow> a ! i = b ! j)"

definition lens_match :: "'a list \<Rightarrow> 'a list \<Rightarrow> nat \<Rightarrow> (nat \<Rightarrow> nat) \<Rightarrow> bool" where
  "lens_match a b i j2len = (\<forall>j d. d < j2len j \<longrightarrow> a ! (i - 1 - d) = b ! (j - d))"

definition block_window :: "match \<Rightarrow> window" where
  "block_window m = (case m of (i, j, k) \<Rightarrow> (i, i + k, j, j + k))"

definition before :: "window \<Rightarrow> window \<Rightarrow> bool" where
  "before p q = (case p of (alo, ahi, blo, bhi) \<Rightarrow> case q of (alo', ahi', blo', bhi') \<Rightarrow>
     ahi \<le> alo' \<and> bhi \<le> blo')"

definition apart :: "window \<Rightarrow> window \<Rightarrow> bool" where
  "apart p q = (before p q \<or> before q p)"

definition contained :: "window \<Rightarrow> window \<Rightarrow> bool" where
  "contained p q = (case p of (alo, ahi, blo, bhi) \<Rightarrow> case q of (alo', ahi', blo', bhi') \<Rightarrow>
     alo' \<le> alo \<and> ahi \<le> ahi' \<and> blo' \<le> blo \<and> bhi \<le> bhi')"

definition good_block :: "'a list \<Rightarrow> 'a list \<Rightarrow> match \<Rightarrow> bool" where
  "good_block a b m = (case m of (i, j, k) \<Rightarrow>
     0 < k \<and> matches a b m \<and> i + k \<le> length a \<and> j + k \<le> length b)"

definition good_window :: "'a list \<Rightarrow> 'a list \<Rightarrow> window \<Rightarrow> bool" where
  "good_window a b q = (case q of (alo, ahi, blo, bhi) \<Rightarrow>
     alo \<le> ahi \<and> ahi \<le> length a \<and> blo \<le> bhi \<and> bhi \<le> length b)"

definition loop_inv :: "'a list \<Rightarrow> 'a list \<Rightarrow> window list \<Rightarrow> match list \<Rightarrow> bool" where
  "loop_inv a b queue blocks =
     ((\<forall>q\<in>set queue. good_window a b q) \<and> (\<forall>m\<in>set blocks. good_block a b m) \<and>
      sorted_wrt apart (map block_window blocks @ queue))"

definition follows :: "match \<Rightarrow> match \<Rightarrow> bool" where
  "follows m m' = (case m of (i, j, k) \<Rightarrow> case m' of (i', j', k') \<Rightarrow> i + k \<le> i' \<and> j + k \<le> j')"

text \<open>
  For a sequence compared with itself: the number of positions up to \<open>i\<close>, without a
  gap, whose element is not left out of the index as too frequent; and what holds of the
  run lengths and of the best block within a row and between the rows of
  \<open>find_longest_match\<close>: the best block lies on the diagonal, and it is as long as
  every run of the diagonal seen so far.
\<close>

fun diagonal_run :: "'a list \<Rightarrow> nat \<Rightarrow> nat" where
  "diagonal_run a 0 = (if popular a (a ! 0) then 0 else 1)"
| "diagonal_run a (Suc i) = (if popular a (a ! Suc i) then 0 else diagonal_run a i + 1)"

definition run_before :: "'a list \<Rightarrow> nat \<Rightarrow> nat" where
  "run_before a i = (if i = 0 then 0 else diagonal_run a (i - 1))"

definition row_inv :: "'a list \<Rightarrow> nat \<Rightarrow> nat list \<Rightarrow> (nat \<Rightarrow> nat) \<times> match \<Rightarrow> bool" where
  "row_inv a i js st =
     (case st of (newj2len, besti, bestj, bestsize) \<Rightarrow>
        (\<forall>j. newj2len j \<le> diagonal_run a i) \<and> (\<forall>j. newj2len j \<le> diagonal_run a j) \<and>
        (i \<in> set js \<or> newj2len i = diagonal_run a i) \<and>
        besti = bestj \<and> (\<forall>i'<i. diagonal_run a i' \<le> bestsize) \<and>
        (i \<in> set js \<or> diagonal_run a i \<le> bestsize))"

definition rows_inv :: "'a list \<Rightarrow> nat \<Rightarrow> (nat \<Rightarrow> nat) \<times> match \<Rightarrow> bool" where
  "rows_inv a i st =
     (case st of (j2len, besti, bestj, bestsize) \<Rightarrow>
        (\<forall>j. j2len j \<le> run_before a i) \<and> (\<forall>j. j2len j \<le> diagonal_run a j) \<and>
        (if i = 0 then 0 else j2len (i - 1)) = run_before a i \<and>
        besti = bestj \<and> (\<forall>i'<i. diagonal_run a i' \<le> bestsize))"

subsection \<open>Properties\<close>

subsubsection \<open>The world after a step\<close>

lemma trace_emit [simp]: "trace (emit e w) = trace w @ [e]"
  by (simp add: emit_def)

lemma notebook_host_emit [simp]: "notebook_host (emit e w) = notebook_host w"
  by (simp add: emit_def)

lemma notebook_host_set_current_api_key [simp]:
  "notebook_host (set_current_api_key k w) = notebook_host w"
  by (simp add: set_current_api_key_def)

lemma requests_emit_Request [simp]:
  "requests (trace (emit (Request r) w)) = requests (trace w) @ [r]"
  by (simp add: requests_def emit_def)

lemma requests_emit_Print [simp]: "requests (trace (emit (Print s) w)) = requests (trace w)"
  by (simp add: requests_def emit_def)

lemma trace_set_current_api_key [simp]: "trace (set_current_api_key k w) = trace w"
  by (simp add: set_current_api_key_def)

lemma requests_append [simp]: "requests (xs @ ys) = requests xs @ requests ys"
  by (simp add: requests_def)

lemma requests_simps [simp]:
  "requests [] = []"
  "requests (Request r # es) = r # requests es"
  "requests (Print s # es) = requests es"
  "requests (Sleep n # es) = requests es"
  "requests (Display d # es) = requests es"
  by (simp_all add: requests_def)

lemma trace_get_host [simp]: "trace (snd (get_host host w)) = trace w"
  by (simp add: get_host_def split: option.splits)

lemma get_host_Some: "get_host (Some h) w = (h, w\<lparr>notebook_host := Some h\<rparr>)"
  by (simp add: get_host_def)

lemma fetch_data_sources_request:
  "fetch_data_sources R k host w =
     (get_data_sources R (trace w) (fst (get_host host w)) k,
      emit (Request (Get_data_sources (fst (get_host host w)) k)) (snd (get_host host w)))"
  by (auto simp: fetch_data_sources_def get_host_def split: option.splits)

lemma create_dma_project_request:
  "create_dma_project R k src tgt nm host w =
     (post_project R (trace w) (fst (get_host host w)) k (dma_project_payload src tgt nm),
      emit (Request (Post_project (fst (get_host host w)) k (dma_project_payload src tgt nm)))
        (snd (get_host host w)))"
  by (auto simp: create_dma_project_def get_host_def Let_def split: option.splits)

lemma upload_queries_request:
  "upload_queries R api_key pid queries host w =
     (post_files R (trace w) (fst (get_host host w)) api_key pid (upload_payload queries),
      emit (Request (Post_files (fst (get_host host w)) api_key pid (upload_payload queries)))
        (snd (get_host host w)))"
  by (auto simp: upload_queries_def get_host_def Let_def split: option.splits)

lemma start_translation_request:
  "start_translation R k p host w =
     (post_translate R (trace w) (fst (get_host host w)) k p,
      emit (Request (Post_translate (fst (get_host host w)) k p)) (snd (get_host host w)))"
  by (auto simp: start_translation_def get_host_def split: option.splits)

subsubsection \<open>Data source selection\<close>

lemma first_item_filter:
  "first_item (filter P xs) = (case List.find P xs of None \<Rightarrow> Inl IndexError | Some x \<Rightarrow> Inr x)"
  by (induction xs) (auto simp: first_item_def)

lemma source_data_source_id_find:
  "source_data_source_id dss =
     (case List.find (\<lambda>d. ds_type d \<noteq> ''databricks'') dss of
        None \<Rightarrow> Inl IndexError | Some d \<Rightarrow> Inr (ds_id d))"
  by (simp add: source_data_source_id_def first_item_filter split: option.splits)

lemma target_data_source_id_find:
  "target_data_source_id dss =
     (case List.find (\<lambda>d. ds_type d = ''databricks'') dss of
        None \<Rightarrow> Inl IndexError | Some d \<Rightarrow> Inr (ds_id d))"
  by (simp add: target_data_source_id_def first_item_filter split: option.splits)

lemma translate_queries_requests:
  assumes "get_data_sources R (trace w) (fst (get_host host w)) api_key = Inr dss"
    and "source_data_source_id dss = Inr src"
    and "target_data_source_id dss = Inr tgt"
  shows "\<exists>rest. requests (trace (snd (translate_queries R api_key queries host w))) =
           requests (trace w) @
           Get_data_sources (fst (get_host host w)) api_key #
           Post_project (fst (get_host host w)) api_key
             (dma_project_payload src tgt ''Databricks Notebook Project'') # rest"
  using assms
  by (auto simp: translate_queries_def fetch_data_sources_def create_dma_project_def
        upload_queries_def start_translation_def get_host_def Let_def
        split: prod.splits sum.splits option.splits)

text \<open>
  Claim C6. The source id is the id of the first data source whose type is not
  \<open>databricks\<close>, the target id the id of the first whose type is \<open>databricks\<close>
  (an \<open>IndexError\<close> when there is none); for the list of a \<open>snowflake\<close> source with
  id 1 and a \<open>databricks\<close> source with id 2 they are 1 and 2; and when the service
  lists data sources for which both exist, \<open>translate_queries\<close> creates the project
  with exactly these two ids, as its next request.
\<close>

theorem data_source_selection:
  "source_data_source_id dss =
     (case List.find (\<lambda>d. ds_type d \<noteq> ''databricks'') dss of
        None \<Rightarrow> Inl IndexError | Some d \<Rightarrow> Inr (ds_id d))
   \<and> target_data_source_id dss =
     (case List.find (\<lambda>d. ds_type d = ''databricks'') dss of
        None \<Rightarrow> Inl IndexError | Some d \<Rightarrow> Inr (ds_id d))
   \<and> source_data_source_id
        [\<lparr>ds_id = 1, ds_type = ''snowflake''\<rparr>, \<lparr>ds_id = 2, ds_type = ''databricks''\<rparr>] = Inr 1
   \<and> target_data_source_id
        [\<lparr>ds_id = 1, ds_type = ''snowflake''\<rparr>, \<lparr>ds_id = 2, ds_type = ''databricks''\<rparr>] = Inr 2
   \<and> (\<forall>R w host api_key queries src tgt.
         get_data_sources R (trace w) (fst (get_host host w)) api_key = Inr dss \<and>
         source_data_source_id dss = Inr src \<and> target_data_source_id dss = Inr tgt \<longrightarrow>
         (\<exists>rest. requests (trace (snd (translate_queries R api_key queries host w))) =
            requests (trace w) @
            Get_data_sources (fst (get_host host w)) api_key #
            Post_project (fst (get_host host w)) api_key
              (dma_project_payload src tgt ''Databricks Notebook Project'') # rest))"
proof -
  have "source_data_source_id
          [\<lparr>ds_id = 1, ds_type = ''snowflake''\<rparr>, \<lparr>ds_id = 2, ds_type = ''databricks''\<rparr>] = Inr 1"
    by (simp add: source_data_source_id_def first_item_def)
  moreover have "target_data_source_id
          [\<lparr>ds_id = 1, ds_type = ''snowflake''\<rparr>, \<lparr>ds_id = 2, ds_type = ''databricks''\<rparr>] = Inr 2"
    by (simp add: target_data_source_id_def first_item_def)
  ultimately show ?thesis
    using source_data_source_id_find target_data_source_id_find translate_queries_requests
    by blast
qed

theorem data_source_selection_witness:
  "\<exists>rest. requests (trace (snd (translate_queries
       (scripted_remote
          [\<lparr>ds_id = 1, ds_type = ''snowflake''\<rparr>, \<lparr>ds_id = 2, ds_type = ''databricks''\<rparr>] [])
       ''key'' [''SELECT 1''] None initial_world))) =
     Get_data_sources ''https://app.datafold.com'' ''key'' #
     Post_project ''https://app.datafold.com'' ''key''
       (dma_project_payload 1 2 ''Databricks Notebook Project'') # rest"
proof -
  let ?dss = "[\<lparr>ds_id = 1, ds_type = ''snowflake''\<rparr>, \<lparr>ds_id = 2, ds_type = ''databricks''\<rparr>]"
  have c: "get_data_sources (scripted_remote ?dss []) (trace initial_world)
             (fst (get_host None initial_world)) ''key'' = Inr ?dss
           \<and> source_data_source_id ?dss = Inr 1 \<and> target_data_source_id ?dss = Inr 2"
    by (simp add: scripted_remote_def source_data_source_id_def target_data_source_id_def
          first_item_def)
  have g: "fst (get_host None initial_world) = ''https://app.datafold.com''"
    by (simp add: get_host_def initial_world_def DEFAULT_HOST_def)
  have t: "requests (trace initial_world) = []"
    by (simp add: initial_world_def requests_def)
  from data_source_selection [of ?dss] c
  have "\<exists>rest. requests (trace (snd (translate_queries (scripted_remote ?dss []) ''key''
                  [''SELECT 1''] None initial_world))) =
          requests (trace initial_world) @
          Get_data_sources (fst (get_host None initial_world)) ''key'' #
          Post_project (fst (get_host None initial_world)) ''key''
            (dma_project_payload 1 2 ''Databricks Notebook Project'') # rest"
    by blast
  then show ?thesis by (simp only: g t append_Nil)
qed

subsubsection \<open>The upload payload\<close>

lemma digit_char_value: "d < 10 \<Longrightarrow> of_char (digit_char d) = (48 + d :: nat)"
proof -
  assume "d < 10"
  then have "d \<in> {0, 1, 2, 3, 4, 5, 6, 7, 8, 9}" by auto
  then show ?thesis by (auto simp: digit_char_def)
qed

lemma dec_value_snoc: "dec_value (s @ [c]) = 10 * dec_value s + (of_char c - 48)"
  by (simp add: dec_value_def)

lemma dec_value_str_nat: "dec_value (str_nat n) = n"
proof (induction n rule: str_nat.induct)
  case (1 n)
  show ?case
  proof (cases "n < 10")
    case True
    then show ?thesis by (subst str_nat.simps) (simp add: dec_value_def digit_char_value)
  next
    case False
    then have "dec_value (str_nat (n div 10)) = n div 10" using 1 by simp
    with False show ?thesis
      by (subst str_nat.simps) (simp add: dec_value_snoc digit_char_value)
  qed
qed

lemma upload_payload_length: "length (upload_payload qs) = length qs"
  by (simp add: upload_payload_def)

lemma upload_payload_nth:
  "i < length qs \<Longrightarrow> upload_payload qs ! i =
     \<lparr>filename = ''query_'' @ str_nat (i + 1) @ ''.sql'', content = qs ! i\<rparr>"
  by (simp add: upload_payload_def nth_enumerate_eq)

lemma upload_example:
  "upload_payload [''SELECT 1'', ''SELECT 2''] =
     [\<lparr>filename = ''query_1.sql'', content = ''SELECT 1''\<rparr>,
      \<lparr>filename = ''query_2.sql'', content = ''SELECT 2''\<rparr>]"
  by (simp add: upload_payload_def str_nat.simps digit_char_def)

text \<open>
  Claim C7. The payload has one file per query, in the order of the queries; the file at
  index \<open>i\<close> (from 0) is named \<open>query_\<close>, the decimal text of \<open>i + 1\<close>, \<open>.sql\<close>, and its
  content is the query at index \<open>i\<close>; the decimal text denotes \<open>i + 1\<close>. No queries
  give a payload of no files, which is sent like any other: the only failure of the
  upload is one of the request. The queries \<open>SELECT 1\<close>, \<open>SELECT 2\<close> give
  \<open>query_1.sql\<close> and \<open>query_2.sql\<close> with these contents, in this order.
\<close>

theorem upload_payload_files:
  "length (upload_payload queries) = length queries
   \<and> (\<forall>i<length queries.
        filename (upload_payload queries ! i) = ''query_'' @ str_nat (i + 1) @ ''.sql''
        \<and> dec_value (str_nat (i + 1)) = i + 1
        \<and> content (upload_payload queries ! i) = queries ! i)
   \<and> upload_payload [] = []
   \<and> upload_queries R api_key pid queries host w =
        (post_files R (trace w) (fst (get_host host w)) api_key pid (upload_payload queries),
         emit (Request (Post_files (fst (get_host host w)) api_key pid (upload_payload queries)))
           (snd (get_host host w)))
   \<and> upload_payload [''SELECT 1'', ''SELECT 2''] =
        [\<lparr>filename = ''query_1.sql'', content = ''SELECT 1''\<rparr>,
         \<lparr>filename = ''query_2.sql'', content = ''SELECT 2''\<rparr>]"
proof (intro conjI allI impI)
  show "length (upload_payload queries) = length queries"
    by (rule upload_payload_length)
  show "upload_payload [] = []"
    by (simp add: upload_payload_def)
  show "upload_queries R api_key pid queries host w =
        (post_files R (trace w) (fst (get_host host w)) api_key pid (upload_payload queries),
         emit (Request (Post_files (fst (get_host host w)) api_key pid (upload_payload queries)))
           (snd (get_host host w)))"
    by (rule upload_queries_request)
  show "upload_payload [''SELECT 1'', ''SELECT 2''] =
        [\<lparr>filename = ''query_1.sql'', content = ''SELECT 1''\<rparr>,
         \<lparr>filename = ''query_2.sql'', content = ''SELECT 2''\<rparr>]"
    by (rule upload_example)
next
  fix i assume "i < length queries"
  then show "filename (upload_payload queries ! i) = ''query_'' @ str_nat (i + 1) @ ''.sql''"
    by (simp only: upload_payload_nth query_file.simps)
next
  fix i show "dec_value (str_nat (i + 1)) = i + 1"
    by (rule dec_value_str_nat)
next
  fix i assume "i < length queries"
  then show "content (upload_payload queries ! i) = queries ! i"
    by (simp only: upload_payload_nth query_file.simps)
qed

theorem upload_payload_files_witness:
  "filename (upload_payload [''a'', ''b'', ''c''] ! 2) = ''query_3.sql''
   \<and> content (upload_payload [''a'', ''b'', ''c''] ! 2) = ''c''"
proof -
  have "(2::nat) < length [''a'', ''b'', ''c'']" by simp
  with upload_payload_files [of "[''a'', ''b'', ''c'']"]
  have "filename (upload_payload [''a'', ''b'', ''c''] ! 2) = ''query_'' @ str_nat (2 + 1) @ ''.sql''
        \<and> content (upload_payload [''a'', ''b'', ''c''] ! 2) = [''a'', ''b'', ''c''] ! 2"
    by blast
  then show ?thesis by (simp add: str_nat.simps [of 3] digit_char_def)
qed

subsubsection \<open>Polling\<close>

lemma poll_trace_0 [simp]: "poll_trace t req secs 0 = t"
  by (simp add: poll_trace_def)

lemma poll_trace_Suc: "poll_trace t req secs (Suc n) = poll_trace (t @ [Request req, Sleep secs]) req secs n"
  by (simp add: poll_trace_def)

lemma sleep_accepted_sleep:
  "sleep_accepted R secs (trace w) \<Longrightarrow> sleep R secs w = (Inr (), emit (Sleep secs) w)"
  by (simp add: sleep_def sleep_accepted_def)

lemma sleep_cases:
  "(\<exists>e. sleep R secs w = (Inl e, w)) \<or> sleep R secs w = (Inr (), emit (Sleep secs) w)"
  by (simp add: sleep_def split: option.splits)

lemma poll_loop_result_aux:
  assumes "poll_loop R h k p t secs w = Some y"
  shows "returned_terminal R h k p t secs w y"
proof (rule poll_loop.raw_induct[where P = returned_terminal, OF _ assms], goal_cases)
  case (1 f R h k p t secs w y)
  let ?w = "emit (Request (Get_job h k p t)) w"
  show ?case
  proof (cases "get_job R (trace w) h k p t")
    case (Inl e')
    with 1(2) show ?thesis by (auto simp: returned_terminal_def)
  next
    case (Inr r)
    show ?thesis
    proof (cases "status r \<in> set [''done'', ''failed'']")
      case True
      with 1(2) Inr show ?thesis by (auto simp: returned_terminal_def)
    next
      case nt: False
      from sleep_cases [of R secs ?w] show ?thesis
      proof
        assume "\<exists>e. sleep R secs ?w = (Inl e, ?w)"
        with 1(2) Inr nt show ?thesis by (auto simp: returned_terminal_def)
      next
        assume "sleep R secs ?w = (Inr (), emit (Sleep secs) ?w)"
        with 1(2) Inr nt have "f R h k p t secs (emit (Sleep secs) ?w) = Some y" by simp
        from 1(1) [OF this] show ?thesis by (simp add: returned_terminal_def)
      qed
    qed
  qed
qed

lemma poll_loop_result:
  assumes "poll_loop R h k p t secs w = Some (Inr res, w')"
  shows "status res \<in> {''done'', ''failed''} \<and>
         (\<exists>w0. w' = emit (Request (Get_job h k p t)) w0 \<and> get_job R (trace w0) h k p t = Inr res)"
  using poll_loop_result_aux[OF assms] by (simp add: returned_terminal_def)

lemma poll_loop_error_aux:
  assumes "poll_loop R h k p t secs w = Some y"
  shows "raised_by_call R h k p t secs w y"
proof (rule poll_loop.raw_induct[where P = raised_by_call, OF _ assms], goal_cases)
  case (1 f R h k p t secs w y)
  let ?w = "emit (Request (Get_job h k p t)) w"
  show ?case
  proof (cases "get_job R (trace w) h k p t")
    case (Inl e')
    with 1(2) show ?thesis by (auto simp: raised_by_call_def)
  next
    case (Inr r)
    show ?thesis
    proof (cases "status r \<in> set [''done'', ''failed'']")
      case True
      with 1(2) Inr show ?thesis by (auto simp: raised_by_call_def)
    next
      case nt: False
      from sleep_cases [of R secs ?w] show ?thesis
      proof
        assume "\<exists>e. sleep R secs ?w = (Inl e, ?w)"
        then obtain e where e: "sleep R secs ?w = (Inl e, ?w)" ..
        with 1(2) Inr nt have "y = (Inl e, ?w)" by simp
        with e show ?thesis unfolding raised_by_call_def by blast
      next
        assume "sleep R secs ?w = (Inr (), emit (Sleep secs) ?w)"
        with 1(2) Inr nt have "f R h k p t secs (emit (Sleep secs) ?w) = Some y" by simp
        from 1(1) [OF this] show ?thesis by (simp add: raised_by_call_def)
      qed
    qed
  qed
qed

lemma poll_loop_error:
  assumes "poll_loop R h k p t secs w = Some (Inl e, w')"
  shows "(\<exists>tr. get_job R tr h k p t = Inl e) \<or> (\<exists>w0. sleep R secs w0 = (Inl e, w0))"
  using poll_loop_error_aux[OF assms] by (simp add: raised_by_call_def)

lemma poll_loop_keeps_host_aux:
  assumes "poll_loop R h k p t secs w = Some y"
  shows "keeps_host w y"
proof (rule poll_loop.raw_induct[where P = "\<lambda>R h k p t secs. keeps_host", OF _ assms], goal_cases)
  case (1 f R h k p t secs w y)
  let ?w = "emit (Request (Get_job h k p t)) w"
  show ?case
  proof (cases "get_job R (trace w) h k p t")
    case (Inl e')
    with 1(2) show ?thesis by (auto simp: keeps_host_def)
  next
    case (Inr r)
    show ?thesis
    proof (cases "status r \<in> set [''done'', ''failed'']")
      case True
      with 1(2) Inr show ?thesis by (auto simp: keeps_host_def)
    next
      case nt: False
      from sleep_cases [of R secs ?w] show ?thesis
      proof
        assume "\<exists>e. sleep R secs ?w = (Inl e, ?w)"
        with 1(2) Inr nt show ?thesis by (auto simp: keeps_host_def)
      next
        assume "sleep R secs ?w = (Inr (), emit (Sleep secs) ?w)"
        with 1(2) Inr nt have "f R h k p t secs (emit (Sleep secs) ?w) = Some y" by simp
        from 1(1) [OF this] show ?thesis by (simp add: keeps_host_def)
      qed
    qed
  qed
qed

lemma poll_loop_keeps_host:
  "poll_loop R h k p t secs w = Some (y, w') \<Longrightarrow> notebook_host w' = notebook_host w"
  using poll_loop_keeps_host_aux [of R h k p t secs w "(y, w')"] by (simp add: keeps_host_def)

lemma poll_loop_returns:
  assumes "\<forall>i<n. pending_round R h k p t secs (poll_trace (trace w) (Get_job h k p t) secs i)"
    and "get_job R (poll_trace (trace w) (Get_job h k p t) secs n) h k p t = Inr res"
    and "status res \<in> {''done'', ''failed''}"
  shows "poll_loop R h k p t secs w =
           Some (Inr res, w\<lparr>trace := poll_trace (trace w) (Get_job h k p t) secs n @ [Request (Get_job h k p t)]\<rparr>)"
  using assms
proof (induction n arbitrary: w)
  case 0
  then show ?case
    by (subst poll_loop.simps) (auto simp: emit_def)
next
  case (Suc n)
  let ?req = "Get_job h k p t"
  let ?w' = "emit (Sleep secs) (emit (Request ?req) w)"
  from Suc.prems(1) have p0: "pending_round R h k p t secs (trace w)"
    by (metis poll_trace_0 zero_less_Suc)
  then obtain r where r: "get_job R (trace w) h k p t = Inr r" "status r \<notin> {''done'', ''failed''}"
    by (auto simp: pending_round_def)
  from p0 have "sleep_accepted R secs (trace (emit (Request ?req) w))"
    by (simp add: pending_round_def)
  then have sl: "sleep R secs (emit (Request ?req) w) = (Inr (), ?w')"
    by (rule sleep_accepted_sleep)
  have tr: "trace ?w' = trace w @ [Request ?req, Sleep secs]" by simp
  have "poll_loop R h k p t secs ?w' =
          Some (Inr res, ?w'\<lparr>trace := poll_trace (trace ?w') ?req secs n @ [Request ?req]\<rparr>)"
  proof (rule Suc.IH)
    show "\<forall>i<n. pending_round R h k p t secs (poll_trace (trace ?w') ?req secs i)"
      using Suc.prems(1) by (auto simp: tr poll_trace_Suc[symmetric])
    show "get_job R (poll_trace (trace ?w') ?req secs n) h k p t = Inr res"
      using Suc.prems(2) by (simp add: tr poll_trace_Suc)
    show "status res \<in> {''done'', ''failed''}" by fact
  qed
  then show ?case using r sl
    by (subst poll_loop.simps) (auto simp: tr poll_trace_Suc emit_def)
qed

lemma never_terminal_step:
  assumes "never_terminal R h k p t secs w"
  shows "never_terminal R h k p t secs (emit (Sleep secs) (emit (Request (Get_job h k p t)) w))"
proof -
  have tr: "trace (emit (Sleep secs) (emit (Request (Get_job h k p t)) w)) = trace w @ [Request (Get_job h k p t), Sleep secs]"
    by simp
  show ?thesis using assms
    by (auto simp: never_terminal_def tr poll_trace_Suc[symmetric])
qed

lemma poll_loop_forever_aux:
  assumes "poll_loop R h k p t secs w = Some y"
  shows "\<not> never_terminal R h k p t secs w"
proof (rule poll_loop.raw_induct[where P = "\<lambda>R h k p t secs w y. \<not> never_terminal R h k p t secs w", OF _ assms], goal_cases)
  case (1 f R h k p t secs w y)
  let ?req = "Get_job h k p t"
  show ?case
  proof
    assume a: "never_terminal R h k p t secs w"
    then have p0: "pending_round R h k p t secs (trace w)"
      unfolding never_terminal_def by (metis poll_trace_0)
    then obtain r where r: "get_job R (trace w) h k p t = Inr r" "status r \<notin> {''done'', ''failed''}"
      by (auto simp: pending_round_def)
    from p0 have "sleep_accepted R secs (trace (emit (Request ?req) w))"
      by (simp add: pending_round_def)
    then have sl: "sleep R secs (emit (Request ?req) w) = (Inr (), emit (Sleep secs) (emit (Request ?req) w))"
      by (rule sleep_accepted_sleep)
    from 1(2) r sl have "f R h k p t secs (emit (Sleep secs) (emit (Request ?req) w)) = Some y"
      by auto
    from 1(1)[OF this] never_terminal_step[OF a] show False by blast
  qed
qed

lemma poll_loop_forever:
  assumes "never_terminal R h k p t secs w"
  shows "poll_loop R h k p t secs w = None"
  using poll_loop_forever_aux[of R h k p t secs w] assms
  by (cases "poll_loop R h k p t secs w") auto

lemma wait_for_translation_results_poll_loop:
  "wait_for_translation_results R k p t secs host w =
     poll_loop R (fst (get_host host w)) k p t secs (snd (get_host host w))"
  by (simp add: wait_for_translation_results_def split: prod.splits)

text \<open>
  Claim C1. Whatever the service answers and whatever the interval is: a result that
  \<open>wait_for_translation_results\<close> returns has the status \<open>done\<close> or \<open>failed\<close>, and it
  is the body of the last fetch. When the first fetch with one of these two statuses comes
  after \<open>n\<close> rounds that went on (a fetch with another status and a sleep that went
  through), the operation returns that result as a value (\<open>Inr\<close>), also when the status
  is \<open>failed\<close>; for \<open>n = 0\<close> this asks nothing of the interval. An exception (\<open>Inl\<close>) is
  always one that a fetch raised or one that \<open>time.sleep\<close> raised, never one made from a
  status; and when every round goes on, the operation does not return.
\<close>

theorem wait_returns_only_terminal:
  "(\<forall>res w'. wait_for_translation_results R k p t secs host w = Some (Inr res, w') \<longrightarrow>
      status res \<in> {''done'', ''failed''} \<and>
      (\<exists>w0. w' = emit (Request (Get_job (fst (get_host host w)) k p t)) w0 \<and>
            get_job R (trace w0) (fst (get_host host w)) k p t = Inr res))
   \<and> (\<forall>n res.
        (\<forall>i<n. pending_round R (fst (get_host host w)) k p t secs
                  (poll_trace (trace w) (Get_job (fst (get_host host w)) k p t) secs i)) \<and>
        get_job R (poll_trace (trace w) (Get_job (fst (get_host host w)) k p t) secs n)
          (fst (get_host host w)) k p t = Inr res \<and>
        status res \<in> {''done'', ''failed''} \<longrightarrow>
        wait_for_translation_results R k p t secs host w =
          Some (Inr res, (snd (get_host host w))
             \<lparr>trace := poll_trace (trace w) (Get_job (fst (get_host host w)) k p t) secs n
                       @ [Request (Get_job (fst (get_host host w)) k p t)]\<rparr>))
   \<and> (\<forall>e w'. wait_for_translation_results R k p t secs host w = Some (Inl e, w') \<longrightarrow>
        (\<exists>tr. get_job R tr (fst (get_host host w)) k p t = Inl e) \<or>
        (\<exists>w0. sleep R secs w0 = (Inl e, w0)))
   \<and> (never_terminal R (fst (get_host host w)) k p t secs w \<longrightarrow>
        wait_for_translation_results R k p t secs host w = None)"
proof (intro conjI allI impI)
  fix res w'
  assume "wait_for_translation_results R k p t secs host w = Some (Inr res, w')"
  then have "poll_loop R (fst (get_host host w)) k p t secs (snd (get_host host w)) = Some (Inr res, w')"
    by (simp add: wait_for_translation_results_poll_loop)
  from poll_loop_result [OF this]
  show "status res \<in> {''done'', ''failed''}"
    and "\<exists>w0. w' = emit (Request (Get_job (fst (get_host host w)) k p t)) w0 \<and>
            get_job R (trace w0) (fst (get_host host w)) k p t = Inr res"
    by blast+
next
  fix n res
  assume a: "(\<forall>i<n. pending_round R (fst (get_host host w)) k p t secs
                  (poll_trace (trace w) (Get_job (fst (get_host host w)) k p t) secs i)) \<and>
        get_job R (poll_trace (trace w) (Get_job (fst (get_host host w)) k p t) secs n)
          (fst (get_host host w)) k p t = Inr res \<and>
        status res \<in> {''done'', ''failed''}"
  show "wait_for_translation_results R k p t secs host w =
          Some (Inr res, (snd (get_host host w))
             \<lparr>trace := poll_trace (trace w) (Get_job (fst (get_host host w)) k p t) secs n
                       @ [Request (Get_job (fst (get_host host w)) k p t)]\<rparr>)"
    using a poll_loop_returns [of n R "fst (get_host host w)" k p t secs "snd (get_host host w)" res]
    by (simp add: wait_for_translation_results_poll_loop)
next
  fix e w'
  assume "wait_for_translation_results R k p t secs host w = Some (Inl e, w')"
  then have "poll_loop R (fst (get_host host w)) k p t secs (snd (get_host host w)) = Some (Inl e, w')"
    by (simp add: wait_for_translation_results_poll_loop)
  from poll_loop_error [OF this]
  show "(\<exists>tr. get_job R tr (fst (get_host host w)) k p t = Inl e) \<or>
        (\<exists>w0. sleep R secs w0 = (Inl e, w0))" .
next
  assume "never_terminal R (fst (get_host host w)) k p t secs w"
  then have "never_terminal R (fst (get_host host w)) k p t secs (snd (get_host host w))"
    by (simp add: never_terminal_def)
  then show "wait_for_translation_results R k p t secs host w = None"
    by (simp add: wait_for_translation_results_poll_loop poll_loop_forever)
qed

lemma job_fetches_simps [simp]:
  "job_fetches [] = 0"
  "job_fetches (Request (Get_job h k p t) # es) = Suc (job_fetches es)"
  "job_fetches (Sleep n # es) = job_fetches es"
  by (simp_all add: job_fetches_def requests_def)

theorem wait_returns_only_terminal_witness:
  "wait_for_translation_results
     (scripted_remote [] [\<lparr>status = ''running'', translated_models = []\<rparr>,
                          \<lparr>status = ''failed'', translated_models = []\<rparr>])
     ''key'' 7 9 5 None initial_world =
   Some (Inr \<lparr>status = ''failed'', translated_models = []\<rparr>,
         initial_world\<lparr>trace :=
           [Request (Get_job ''https://app.datafold.com'' ''key'' 7 9), Sleep 5,
            Request (Get_job ''https://app.datafold.com'' ''key'' 7 9)]\<rparr>)
   \<and> wait_for_translation_results
     (scripted_remote [] [\<lparr>status = ''failed'', translated_models = []\<rparr>])
     ''key'' 7 9 (- 1) None initial_world =
   Some (Inr \<lparr>status = ''failed'', translated_models = []\<rparr>,
         initial_world\<lparr>trace :=
           [Request (Get_job ''https://app.datafold.com'' ''key'' 7 9)]\<rparr>)"
proof -
  let ?R = "scripted_remote [] [\<lparr>status = ''running'', translated_models = []\<rparr>,
                          \<lparr>status = ''failed'', translated_models = []\<rparr>]"
  let ?R' = "scripted_remote [] [\<lparr>status = ''failed'', translated_models = []\<rparr>]"
  let ?h = "''https://app.datafold.com''"
  have g: "get_host None initial_world = (?h, initial_world)"
    by (simp add: get_host_def initial_world_def DEFAULT_HOST_def)
  have t: "trace initial_world = []" by (simp add: initial_world_def)
  have pre: "(\<forall>i<Suc 0. pending_round ?R (fst (get_host None initial_world)) ''key'' 7 9 5
                  (poll_trace (trace initial_world) (Get_job (fst (get_host None initial_world)) ''key'' 7 9) 5 i)) \<and>
        get_job ?R (poll_trace (trace initial_world) (Get_job (fst (get_host None initial_world)) ''key'' 7 9) 5 (Suc 0))
          (fst (get_host None initial_world)) ''key'' 7 9 = Inr \<lparr>status = ''failed'', translated_models = []\<rparr> \<and>
        status \<lparr>status = ''failed'', translated_models = []\<rparr> \<in> {''done'', ''failed''}"
    by (simp add: g t poll_trace_def scripted_remote_def pending_round_def sleep_accepted_def)
  from wait_returns_only_terminal [of ?R "''key''" 7 9 5 None initial_world] pre
  have "wait_for_translation_results ?R ''key'' 7 9 5 None initial_world =
          Some (Inr \<lparr>status = ''failed'', translated_models = []\<rparr>, (snd (get_host None initial_world))
             \<lparr>trace := poll_trace (trace initial_world) (Get_job (fst (get_host None initial_world)) ''key'' 7 9) 5 (Suc 0)
                       @ [Request (Get_job (fst (get_host None initial_world)) ''key'' 7 9)]\<rparr>)"
    by blast
  then have first: "wait_for_translation_results ?R ''key'' 7 9 5 None initial_world =
      Some (Inr \<lparr>status = ''failed'', translated_models = []\<rparr>,
         initial_world\<lparr>trace :=
           [Request (Get_job ?h ''key'' 7 9), Sleep 5, Request (Get_job ?h ''key'' 7 9)]\<rparr>)"
    by (simp add: g t poll_trace_def)
  have pre': "(\<forall>i<0. pending_round ?R' (fst (get_host None initial_world)) ''key'' 7 9 (- 1)
                  (poll_trace (trace initial_world) (Get_job (fst (get_host None initial_world)) ''key'' 7 9) (- 1) i)) \<and>
        get_job ?R' (poll_trace (trace initial_world) (Get_job (fst (get_host None initial_world)) ''key'' 7 9) (- 1) 0)
          (fst (get_host None initial_world)) ''key'' 7 9 = Inr \<lparr>status = ''failed'', translated_models = []\<rparr> \<and>
        status \<lparr>status = ''failed'', translated_models = []\<rparr> \<in> {''done'', ''failed''}"
    by (simp add: g t scripted_remote_def)
  from wait_returns_only_terminal [of ?R' "''key''" 7 9 "- 1" None initial_world] pre'
  have "wait_for_translation_results ?R' ''key'' 7 9 (- 1) None initial_world =
          Some (Inr \<lparr>status = ''failed'', translated_models = []\<rparr>, (snd (get_host None initial_world))
             \<lparr>trace := poll_trace (trace initial_world) (Get_job (fst (get_host None initial_world)) ''key'' 7 9) (- 1) 0
                       @ [Request (Get_job (fst (get_host None initial_world)) ''key'' 7 9)]\<rparr>)"
    by blast
  then have second: "wait_for_translation_results ?R' ''key'' 7 9 (- 1) None initial_world =
      Some (Inr \<lparr>status = ''failed'', translated_models = []\<rparr>,
         initial_world\<lparr>trace := [Request (Get_job ?h ''key'' 7 9)]\<rparr>)"
    by (simp add: g t)
  from first second show ?thesis by (rule conjI)
qed

lemma job_fetches_append: "job_fetches (xs @ ys) = job_fetches xs + job_fetches ys"
  by (simp add: job_fetches_def requests_def)

lemma sleeps_append: "sleeps (xs @ ys) = sleeps xs + sleeps ys"
  by (simp add: sleeps_def)

text \<open>
  Claim C2. When three fetches in a row answer \<open>pending\<close>, \<open>pending\<close>, \<open>done\<close>, and
  the two sleeps between them go through (the interval is not negative, its nanoseconds
  fit into 64 bits, and the system does not refuse it), the operation returns the third
  body; what it did is fetch, sleep, fetch, sleep, fetch: three fetches and two sleeps
  more than before.
\<close>

theorem polling_pending_pending_done:
  assumes "get_host host w = (h, w1)"
    and "0 \<le> secs" and "secs \<le> 9223372036"
    and "get_job R (trace w) h k p t = Inr r1" and "status r1 = ''pending''"
    and "os_sleep R (trace w @ [Request (Get_job h k p t)]) secs = None"
    and "get_job R (trace w @ [Request (Get_job h k p t), Sleep secs]) h k p t = Inr r2"
    and "status r2 = ''pending''"
    and "os_sleep R (trace w @ [Request (Get_job h k p t), Sleep secs,
                                Request (Get_job h k p t)]) secs = None"
    and "get_job R (trace w @ [Request (Get_job h k p t), Sleep secs,
                               Request (Get_job h k p t), Sleep secs]) h k p t = Inr r3"
    and "status r3 = ''done''"
  shows "\<exists>w'. wait_for_translation_results R k p t secs host w = Some (Inr r3, w')
           \<and> trace w' = trace w @ [Request (Get_job h k p t), Sleep secs,
                                   Request (Get_job h k p t), Sleep secs,
                                   Request (Get_job h k p t)]
           \<and> job_fetches (trace w') = job_fetches (trace w) + 3
           \<and> sleeps (trace w') = sleeps (trace w) + 2"
proof -
  let ?req = "Get_job h k p t"
  have h: "fst (get_host host w) = h" and w1: "snd (get_host host w) = w1"
    using assms(1) by simp_all
  have tw1: "trace w1 = trace w"
    using trace_get_host [of host w] by (simp add: w1)
  have nt: "\<forall>i<2. pending_round R h k p t secs (poll_trace (trace w1) ?req secs i)"
  proof (intro allI impI)
    fix i :: nat assume "i < 2"
    then consider "i = 0" | "i = 1" by linarith
    then show "pending_round R h k p t secs (poll_trace (trace w1) ?req secs i)"
      using assms(2-9)
      by cases (simp_all add: poll_trace_def tw1 pending_round_def sleep_accepted_def)
  qed
  have last: "get_job R (poll_trace (trace w1) ?req secs 2) h k p t = Inr r3"
    using assms(10) by (simp add: poll_trace_def tw1 numeral_2_eq_2)
  have "poll_loop R h k p t secs w1 =
          Some (Inr r3, w1\<lparr>trace := poll_trace (trace w1) ?req secs 2 @ [Request ?req]\<rparr>)"
    using poll_loop_returns [OF nt last] assms(11) by simp
  then have "wait_for_translation_results R k p t secs host w =
          Some (Inr r3, w1\<lparr>trace := poll_trace (trace w1) ?req secs 2 @ [Request ?req]\<rparr>)"
    by (simp add: wait_for_translation_results_poll_loop h w1)
  moreover have "poll_trace (trace w1) ?req secs 2 @ [Request ?req] =
      trace w @ [Request ?req, Sleep secs, Request ?req, Sleep secs, Request ?req]"
    by (simp add: poll_trace_def tw1 numeral_2_eq_2)
  ultimately show ?thesis
    by (simp add: job_fetches_append sleeps_append sleeps_def)
qed

theorem polling_pending_pending_done_witness:
  "\<exists>w'. wait_for_translation_results
     (scripted_remote [] [\<lparr>status = ''pending'', translated_models = []\<rparr>,
                          \<lparr>status = ''pending'', translated_models = []\<rparr>,
                          \<lparr>status = ''done'', translated_models = []\<rparr>])
     ''key'' 7 9 5 (Some ''https://eu.example.test'') initial_world =
       Some (Inr \<lparr>status = ''done'', translated_models = []\<rparr>, w')
     \<and> job_fetches (trace w') = 3 \<and> sleeps (trace w') = 2"
proof -
  let ?R = "scripted_remote [] [\<lparr>status = ''pending'', translated_models = []\<rparr>,
                          \<lparr>status = ''pending'', translated_models = []\<rparr>,
                          \<lparr>status = ''done'', translated_models = []\<rparr>]"
  let ?h = "''https://eu.example.test''"
  have t: "trace initial_world = []" by (simp add: initial_world_def)
  have "\<exists>w'. wait_for_translation_results ?R ''key'' 7 9 5 (Some ?h) initial_world =
            Some (Inr \<lparr>status = ''done'', translated_models = []\<rparr>, w')
           \<and> trace w' = trace initial_world @ [Request (Get_job ?h ''key'' 7 9), Sleep 5,
                                   Request (Get_job ?h ''key'' 7 9), Sleep 5,
                                   Request (Get_job ?h ''key'' 7 9)]
           \<and> job_fetches (trace w') = job_fetches (trace initial_world) + 3
           \<and> sleeps (trace w') = sleeps (trace initial_world) + 2"
    by (rule polling_pending_pending_done
          [where ?r1.0 = "\<lparr>status = ''pending'', translated_models = []\<rparr>"
             and ?r2.0 = "\<lparr>status = ''pending'', translated_models = []\<rparr>"
             and ?w1.0 = "initial_world\<lparr>notebook_host := Some ?h\<rparr>"])
       (simp_all add: t scripted_remote_def get_host_def)
  moreover have "sleeps (trace initial_world) = 0" "job_fetches (trace initial_world) = 0"
    by (simp_all add: t sleeps_def)
  ultimately show ?thesis by auto
qed

subsubsection \<open>The host cache\<close>

lemma explicit_hosts_snoc:
  "explicit_hosts (hs @ [h]) = explicit_hosts hs @ (case h of Some x \<Rightarrow> [x] | None \<Rightarrow> [])"
  by (simp add: explicit_hosts_def)

lemma most_recent_explicit_snoc:
  "most_recent_explicit (hs @ [h]) = (case h of Some x \<Rightarrow> Some x | None \<Rightarrow> most_recent_explicit hs)"
  by (simp add: most_recent_explicit_def explicit_hosts_snoc split: option.splits)

lemma get_host_calls_append:
  "get_host_calls (hs @ hs') w =
     (case get_host_calls hs w of (rs, w') \<Rightarrow>
        case get_host_calls hs' w' of (rs', w'') \<Rightarrow> (rs @ rs', w''))"
  by (induction hs arbitrary: w) (auto split: prod.splits)

lemma get_host_calls_state:
  "notebook_host w = None \<Longrightarrow>
     snd (get_host_calls hs w) = w\<lparr>notebook_host := most_recent_explicit hs\<rparr>"
proof (induction hs rule: rev_induct)
  case Nil
  then show ?case by (simp add: most_recent_explicit_def explicit_hosts_def)
next
  case (snoc h hs)
  then show ?case
    by (auto simp: get_host_calls_append most_recent_explicit_snoc get_host_def
          split: prod.splits option.splits)
qed

lemma get_host_calls_results:
  "notebook_host w = None \<Longrightarrow>
     fst (get_host_calls hs w) = map (\<lambda>i. host_in_use (take (Suc i) hs)) [0..<length hs]"
proof (induction hs rule: rev_induct)
  case Nil
  then show ?case by simp
next
  case (snoc h hs)
  have st: "snd (get_host_calls hs w) = w\<lparr>notebook_host := most_recent_explicit hs\<rparr>"
    using snoc.prems by (rule get_host_calls_state)
  show ?case using snoc st
    by (auto simp: get_host_calls_append most_recent_explicit_snoc get_host_def host_in_use_def
          split: prod.splits option.splits)
qed

lemma create_organization_host:
  "notebook_host (snd (create_organization R tok host w)) = notebook_host (snd (get_host host w))"
  by (simp add: create_organization_def Let_def split: prod.splits sum.splits option.splits)

lemma create_organization_request:
  "requests (trace (snd (create_organization R tok host w))) =
     requests (trace w) @ [Post_org (fst (get_host host w)) tok]"
proof -
  obtain h w1 where g: "get_host host w = (h, w1)" by (cases "get_host host w")
  then have t: "trace w1 = trace w" using trace_get_host [of host w] by simp
  show ?thesis
    by (simp add: create_organization_def Let_def g t split: sum.splits option.splits)
qed

lemma translate_queries_host:
  "notebook_host (snd (translate_queries R k qs host w)) = Some (fst (get_host host w))"
proof -
  obtain h w1 where g: "get_host host w = (h, w1)" by (cases "get_host host w")
  show ?thesis
    by (simp add: translate_queries_def g fetch_data_sources_request create_dma_project_request
          upload_queries_request start_translation_request get_host_Some
          split: prod.splits sum.splits)
qed

lemma wait_for_translation_results_host:
  assumes "wait_for_translation_results R k p t secs host w = Some (y, w')"
  shows "notebook_host w' = notebook_host (snd (get_host host w))"
  using assms poll_loop_keeps_host [of R "fst (get_host host w)" k p t secs "snd (get_host host w)" y w']
  by (simp add: wait_for_translation_results_poll_loop)

lemma view_translation_results_as_html_host:
  assumes "view_translation_results_as_html R k p t host w = Some (y, w')"
  shows "notebook_host w' = Some (fst (get_host host w))"
proof -
  obtain h w1 where g: "get_host host w = (h, w1)" by (cases "get_host host w")
  let ?w = "emit (Print ''Waiting for Translation Results...'') w1"
  from assms g obtain y2 w2 where
    r: "wait_for_translation_results R k p t 5 (Some h) ?w = Some (y2, w2)"
    and w': "notebook_host w' = notebook_host w2"
    by (auto simp: view_translation_results_as_html_def split: option.splits sum.splits prod.splits)
  from wait_for_translation_results_host [OF r] w' show ?thesis
    by (simp add: g get_host_Some)
qed

lemma get_current_api_key_host:
  assumes "current_api_key w = None"
  shows "notebook_host (snd (get_current_api_key R (Some tok) host w)) = Some (fst (get_host host w))"
proof -
  obtain h w1 where g: "get_host host w = (h, w1)" by (cases "get_host host w")
  have "notebook_host (snd (create_organization R tok (Some h) w1)) = Some h"
    by (simp add: create_organization_host get_host_Some)
  then show ?thesis using assms
    by (auto simp: get_current_api_key_def g split: prod.splits sum.splits)
qed




subsubsection \<open>The report builder and the API key guard\<close>

text \<open>
  Claim C8. For a result with no translated models the report is exactly the text
  \<open>No queries were translated.\<close>: no style, no script, no section.
\<close>

theorem empty_report:
  assumes "translated_models results = []"
  shows "translation_results_html results = Inr (str ''No queries were translated.'')"
  using assms by (simp add: translation_results_html_def)

theorem empty_report_witness:
  "translation_results_html \<lparr>status = ''done'', translated_models = []\<rparr> =
     Inr (str ''No queries were translated.'')"
proof -
  have "translated_models \<lparr>status = ''done'', translated_models = []\<rparr> = []" by simp
  then show ?thesis by (rule empty_report)
qed

text \<open>
  Claim C9. With no API key cached and no organization token given,
  \<open>translate_queries_and_render_results\<close> raises the \<open>ValueError\<close> of its check and
  leaves everything as it was: no request has been sent, nothing printed or cached.
\<close>

theorem no_api_key_is_checked:
  assumes "current_api_key w = None"
  shows "translate_queries_and_render_results R queries None host w =
           Some (Inl (ValueError
             ''API key is not set. Please call create_organization or set the API key manually.''), w)"
  using assms
  by (simp add: translate_queries_and_render_results_def get_current_api_key_def)

theorem no_api_key_is_checked_witness:
  "translate_queries_and_render_results (scripted_remote [] []) [''SELECT 1''] None
       (Some ''https://eu.example.test'') initial_world =
     Some (Inl (ValueError
       ''API key is not set. Please call create_organization or set the API key manually.''),
       initial_world)"
proof -
  have "current_api_key initial_world = None" by (simp add: initial_world_def)
  then show ?thesis by (rule no_api_key_is_checked)
qed

subsubsection \<open>The columns in terms of the diff\<close>

declare str_def [simp]

lemma render_lines_eq:
  "render_lines diff i (s, t) =
     (s @ map (\<lambda>l. line_div (source_class l) (drop 2 l)) (filter is_source_line (drop i diff)),
      t @ map (\<lambda>l. line_div (target_class l) (drop 2 l)) (filter is_target_line (drop i diff)))"
proof (induction diff i "(s, t)" arbitrary: s t rule: render_lines.induct)
  case (1 diff i s t)
  show ?case
  proof (cases "i < length diff")
    case False
    then show ?thesis by (subst render_lines.simps) simp
  next
    case True
    then have d: "drop i diff = diff ! i # drop (i + 1) diff"
      by (simp add: Cons_nth_drop_Suc)
    let ?l = "diff ! i"
    consider (u) "prefix (str ''  '') ?l"
      | (r) "\<not> prefix (str ''  '') ?l" "prefix (str ''- '') ?l"
      | (a) "\<not> prefix (str ''  '') ?l" "\<not> prefix (str ''- '') ?l" "prefix (str ''+ '') ?l"
      | (q) "\<not> prefix (str ''  '') ?l" "\<not> prefix (str ''- '') ?l" "\<not> prefix (str ''+ '') ?l"
      by blast
    then show ?thesis
    proof cases
      case u
      with True 1(1) [OF True refl u] show ?thesis
        by (subst render_lines.simps)
           (simp add: d Let_def is_source_line_def is_target_line_def source_class_def target_class_def)
    next
      case r
      then have "\<not> prefix (str ''+ '') ?l" by (auto simp: prefix_def)
      with r True 1(2) [OF True refl r] show ?thesis
        by (subst render_lines.simps)
           (simp add: d Let_def is_source_line_def is_target_line_def source_class_def target_class_def)
    next
      case a
      with True 1(3) [OF True refl a] show ?thesis
        by (subst render_lines.simps)
           (simp add: d Let_def is_source_line_def is_target_line_def source_class_def target_class_def)
    next
      case q
      show ?thesis
      proof (cases "prefix (str ''? '') ?l")
        case True
        with q \<open>i < length diff\<close> 1(4) [OF \<open>i < length diff\<close> refl q True] show ?thesis
          by (subst render_lines.simps)
             (simp add: d Let_def is_source_line_def is_target_line_def)
      next
        case False
        with q \<open>i < length diff\<close> 1(5) [OF \<open>i < length diff\<close> refl q False] show ?thesis
          by (subst render_lines.simps)
             (simp add: d Let_def is_source_line_def is_target_line_def)
      qed
    qed
  qed
qed

subsubsection \<open>The differ gives back both sequences\<close>

lemma compare_emit: "compare a b = concat (map (emit_opcode a b) (get_opcodes a b))"
  by (simp add: compare_def emit_opcode_def [abs_def])

lemma slice_empty [simp]: "hi \<le> lo \<Longrightarrow> slice x lo hi = []"
  by (simp add: slice_def)

lemma slice_append: "lo \<le> mid \<Longrightarrow> mid \<le> hi \<Longrightarrow> slice x lo mid @ slice x mid hi = slice x lo hi"
  unfolding slice_def by (metis map_append upt_add_eq_append le_Suc_ex)

lemma slice_single: "slice x lo (Suc lo) = [x ! lo]"
  by (simp add: slice_def)

lemma slice_all: "slice x 0 (length x) = x"
  by (simp add: slice_def map_nth)

lemma slice_split3:
  "lo \<le> i \<Longrightarrow> i < hi \<Longrightarrow> slice x lo i @ [x ! i] @ slice x (i + 1) hi = slice x lo hi"
proof -
  assume a: "lo \<le> i" "i < hi"
  have "slice x i hi = [x ! i] @ slice x (Suc i) hi"
    using a slice_append [of i "Suc i" hi x] by (simp add: slice_single)
  with a show ?thesis using slice_append [of lo i hi x] by simp
qed

lemma source_side_append [simp]: "source_side (xs @ ys) = source_side xs @ source_side ys"
  by (simp add: source_side_def)

lemma target_side_append [simp]: "target_side (xs @ ys) = target_side xs @ target_side ys"
  by (simp add: target_side_def)

lemma source_side_Nil [simp]: "source_side [] = []"
  by (simp add: source_side_def)

lemma target_side_Nil [simp]: "target_side [] = []"
  by (simp add: target_side_def)

lemma sides_minus [simp]:
  "source_side (dump ''-'' x lo hi) = slice x lo hi"
  "target_side (dump ''-'' x lo hi) = []"
  by (simp_all add: source_side_def target_side_def dump_def slice_def is_source_line_def
        is_target_line_def filter_map comp_def)

lemma sides_plus [simp]:
  "source_side (dump ''+'' x lo hi) = []"
  "target_side (dump ''+'' x lo hi) = slice x lo hi"
  by (simp_all add: source_side_def target_side_def dump_def slice_def is_source_line_def
        is_target_line_def filter_map comp_def)

lemma sides_blank [simp]:
  "source_side (dump '' '' x lo hi) = slice x lo hi"
  "target_side (dump '' '' x lo hi) = slice x lo hi"
  by (simp_all add: source_side_def target_side_def dump_def slice_def is_source_line_def
        is_target_line_def filter_map comp_def)

lemma sides_qformat [simp]:
  "source_side (qformat aline bline atags btags) = [aline]"
  "target_side (qformat aline bline atags btags) = [bline]"
  by (simp_all add: source_side_def target_side_def qformat_def Let_def is_source_line_def
        is_target_line_def)

lemma sides_plain_replace [simp]:
  "source_side (plain_replace a alo ahi b blo bhi) = slice a alo ahi"
  "target_side (plain_replace a alo ahi b blo bhi) = slice b blo bhi"
  by (simp_all add: plain_replace_def)

lemma sides_blank_line [simp]:
  "source_side ((32 # 32 # l) # xs) = l # source_side xs"
  "target_side ((32 # 32 # l) # xs) = l # target_side xs"
  by (simp_all add: source_side_def target_side_def is_source_line_def is_target_line_def)

lemma synch_search_equal_aux: "synch_equal a b (synch_search a alo ahi b blo bhi)"
  unfolding synch_search_def
proof (rule fold_invariant [where P = "synch_equal a b"])
  show "synch_equal a b (74 / 100, None, None)" by (simp add: synch_equal_def)
next
  fix j st assume st: "synch_equal a b st"
  show "synch_equal a b (fold (synch_step a b j) [alo..<ahi] st)"
  proof (rule fold_invariant [where P = "synch_equal a b", OF st])
    fix i st' assume "synch_equal a b st'"
    then show "synch_equal a b (synch_step a b j i st')"
      by (auto simp: synch_equal_def synch_step_def split: prod.splits)
  qed
qed

lemma synch_search_equal:
  "synch_search a alo ahi b blo bhi = (r, best, Some (i, j)) \<Longrightarrow> a ! i = b ! j"
  using synch_search_equal_aux [of a b alo ahi blo bhi] by (simp add: synch_equal_def)

lemma synch_search_close:
  "synch_search a alo ahi b blo bhi = (r, best, eq) \<Longrightarrow> \<not> r < 75 / 100 \<Longrightarrow> best \<noteq> None"
  using synch_search_in_ranges [of alo ahi blo bhi a b] by (auto simp: synch_in_ranges_def)

lemma sides_fancy:
  "source_side (fancy_replace a alo ahi b blo bhi) = slice a alo ahi
     \<and> target_side (fancy_replace a alo ahi b blo bhi) = slice b blo bhi"
  "source_side (fancy_helper a alo ahi b blo bhi) = slice a alo ahi
     \<and> target_side (fancy_helper a alo ahi b blo bhi) = slice b blo bhi"
proof (induction a alo ahi b blo bhi and a alo ahi b blo bhi rule: fancy_replace_fancy_helper.induct)
  case (1 a alo ahi b blo bhi)
  obtain r best eq where s: "synch_search a alo ahi b blo bhi = (r, best, eq)"
    by (cases "synch_search a alo ahi b blo bhi")
  show ?case
  proof (cases "r < 75 / 100")
    case True
    show ?thesis
    proof (cases eq)
      case None
      with s True show ?thesis by (subst (1 2) fancy_replace.simps) simp
    next
      case (Some p)
      obtain eqi eqj where p: "p = (eqi, eqj)" by (cases p)
      have s': "synch_search a alo ahi b blo bhi = (r, best, Some (eqi, eqj))"
        using s Some p by simp
      note rng = synch_search_eq [OF s'] and e = synch_search_equal [OF s']
      have ih1: "source_side (fancy_helper a alo eqi b blo eqj) = slice a alo eqi
           \<and> target_side (fancy_helper a alo eqi b blo eqj) = slice b blo eqj"
        using 1(1) [OF s [symmetric] refl True] Some p by simp
      have ih2: "source_side (fancy_helper a (eqi + 1) ahi b (eqj + 1) bhi) = slice a (eqi + 1) ahi
           \<and> target_side (fancy_helper a (eqi + 1) ahi b (eqj + 1) bhi) = slice b (eqj + 1) bhi"
        using 1(2) [OF s [symmetric] refl True] Some p by simp
      have "fancy_replace a alo ahi b blo bhi =
              fancy_helper a alo eqi b blo eqj @ [str ''  '' @ a ! eqi] @
              fancy_helper a (eqi + 1) ahi b (eqj + 1) bhi"
        using s' True by (subst fancy_replace.simps) simp
      then show ?thesis
        using ih1 ih2 rng e slice_split3 [of alo eqi ahi a] slice_split3 [of blo eqj bhi b]
        by simp
    qed
  next
    case False
    with synch_search_close [OF s] obtain p where b: "best = Some p" by auto
    obtain best_i best_j where p: "p = (best_i, best_j)" by (cases p)
    have s': "synch_search a alo ahi b blo bhi = (r, Some (best_i, best_j), eq)"
      using s b p by simp
    note rng = synch_search_best [OF s']
    have ih1: "source_side (fancy_helper a alo best_i b blo best_j) = slice a alo best_i
         \<and> target_side (fancy_helper a alo best_i b blo best_j) = slice b blo best_j"
      using 1(3) [OF s [symmetric] refl False] b p by simp
    have ih2: "source_side (fancy_helper a (best_i + 1) ahi b (best_j + 1) bhi) = slice a (best_i + 1) ahi
         \<and> target_side (fancy_helper a (best_i + 1) ahi b (best_j + 1) bhi) = slice b (best_j + 1) bhi"
      using 1(4) [OF s [symmetric] refl False] b p by simp
    obtain atags btags where t: "tag_strings (get_opcodes (a ! best_i) (b ! best_j)) = (atags, btags)"
      by (cases "tag_strings (get_opcodes (a ! best_i) (b ! best_j))")
    have "fancy_replace a alo ahi b blo bhi =
            fancy_helper a alo best_i b blo best_j @
            qformat (a ! best_i) (b ! best_j) atags btags @
            fancy_helper a (best_i + 1) ahi b (best_j + 1) bhi"
      using s' False t by (subst fancy_replace.simps) simp
    then show ?thesis
      using ih1 ih2 rng slice_split3 [of alo best_i ahi a] slice_split3 [of blo best_j bhi b]
      by simp
  qed
next
  case (2 a alo ahi b blo bhi)
  then show ?case
    by (subst (1 2) fancy_helper.simps) auto
qed

lemma matches_slice: "matches a b (i, j, k) \<Longrightarrow> slice a i (i + k) = slice b j (j + k)"
  by (rule nth_equalityI) (auto simp: matches_def slice_def)

lemma blocks_end_ge:
  "valid_blocks a b i j ms \<Longrightarrow> i \<le> fst (blocks_end i j ms) \<and> j \<le> snd (blocks_end i j ms)"
proof (induction ms arbitrary: i j)
  case Nil
  then show ?case by simp
next
  case (Cons m ms)
  obtain ai bj sz where m: "m = (ai, bj, sz)" by (cases m)
  from Cons.prems have "valid_blocks a b (ai + sz) (bj + sz) ms" and "i \<le> ai" and "j \<le> bj"
    by (simp_all add: m)
  with Cons.IH [of "ai + sz" "bj + sz"] show ?case by (simp add: m)
qed

lemma opcodes_sides:
  "valid_blocks a b i j ms \<Longrightarrow>
     source_side (concat (map (emit_opcode a b) (opcodes_from i j ms))) =
       slice a i (fst (blocks_end i j ms))
     \<and> target_side (concat (map (emit_opcode a b) (opcodes_from i j ms))) =
       slice b j (snd (blocks_end i j ms))"
proof (induction ms arbitrary: i j)
  case Nil
  then show ?case by simp
next
  case (Cons m ms)
  obtain ai bj sz where m: "m = (ai, bj, sz)" by (cases m)
  from Cons.prems have v: "valid_blocks a b (ai + sz) (bj + sz) ms" and le: "i \<le> ai" "j \<le> bj"
    and mt: "matches a b (ai, bj, sz)"
    by (simp_all add: m)
  let ?ie = "fst (blocks_end (ai + sz) (bj + sz) ms)" and ?je = "snd (blocks_end (ai + sz) (bj + sz) ms)"
  let ?gap = "if i < ai \<and> j < bj then [(Replace, i, ai, j, bj)]
      else if i < ai then [(Delete, i, ai, j, bj)]
      else if j < bj then [(Insert, i, ai, j, bj)]
      else []"
  let ?eq = "if sz \<noteq> 0 then [(Equal, ai, ai + sz, bj, bj + sz)] else []"
  have ge: "ai + sz \<le> ?ie" "bj + sz \<le> ?je"
    using blocks_end_ge [OF v] by simp_all
  have gap: "source_side (concat (map (emit_opcode a b) ?gap)) = slice a i ai
           \<and> target_side (concat (map (emit_opcode a b) ?gap)) = slice b j bj"
    using le by (auto simp: emit_opcode_def sides_fancy)
  have eq: "source_side (concat (map (emit_opcode a b) ?eq)) = slice a ai (ai + sz)
           \<and> target_side (concat (map (emit_opcode a b) ?eq)) = slice b bj (bj + sz)"
    using matches_slice [OF mt] by (auto simp: emit_opcode_def)
  have rest: "source_side (concat (map (emit_opcode a b) (opcodes_from (ai + sz) (bj + sz) ms))) = slice a (ai + sz) ?ie
           \<and> target_side (concat (map (emit_opcode a b) (opcodes_from (ai + sz) (bj + sz) ms))) = slice b (bj + sz) ?je"
    by (rule Cons.IH [OF v])
  have o: "opcodes_from i j (m # ms) = ?gap @ ?eq @ opcodes_from (ai + sz) (bj + sz) ms"
    by (simp add: m)
  have sa: "slice a i ai @ slice a ai (ai + sz) @ slice a (ai + sz) ?ie = slice a i ?ie"
    using le ge by (simp add: slice_append)
  have sb: "slice b j bj @ slice b bj (bj + sz) @ slice b (bj + sz) ?je = slice b j ?je"
    using le ge by (simp add: slice_append)
  have e: "blocks_end i j (m # ms) = blocks_end (ai + sz) (bj + sz) ms"
    by (simp add: m)
  show ?case
    unfolding o e map_append concat_append source_side_append target_side_append
    using gap eq rest sa sb by simp
qed

lemma compare_sides:
  assumes "valid_blocks a b 0 0 (get_matching_blocks a b)"
    and "blocks_end 0 0 (get_matching_blocks a b) = (length a, length b)"
  shows "source_side (compare a b) = a" and "target_side (compare a b) = b"
  using opcodes_sides [OF assms(1)] assms(2)
  by (simp_all add: compare_emit get_opcodes_def slice_all)

lemma set_b2j: "j \<in> set (b2j b x) \<Longrightarrow> j < length b \<and> b ! j = x"
  by (auto simp: b2j_def indices_of_def split: if_splits)

lemma match_row_matches:
  assumes "lens_bounded alo blo i j2len" and "alo \<le> i" and "lens_match a b i j2len"
    and "\<forall>j\<in>set js. b ! j = a ! i"
    and "lens_match a b (Suc i) newj2len"
    and "matches a b best"
  shows "lens_match a b (Suc i) (fst (match_row j2len i blo bhi js (newj2len, best)))
       \<and> matches a b (snd (match_row j2len i blo bhi js (newj2len, best)))"
  using assms(4,5,6)
proof (induction js arbitrary: newj2len best)
  case Nil
  then show ?case by simp
next
  case (Cons j js)
  obtain bi bj bs where best: "best = (bi, bj, bs)" by (cases best)
  have js: "\<forall>j\<in>set js. b ! j = a ! i" using Cons.prems(1) by simp
  show ?case
  proof (cases "j < blo \<or> bhi \<le> j")
    case True
    then show ?thesis using Cons.IH [OF js Cons.prems(2,3)] Cons.prems(2,3) by (auto simp: best)
  next
    case False
    define prev where "prev = (if j = 0 then 0 else j2len (j - 1))"
    define k where "k = prev + 1"
    have p1: "prev \<le> i - alo"
      using assms(1) by (simp add: lens_bounded_def prev_def)
    have p2: "prev \<le> j - blo"
    proof (cases "j = 0")
      case True
      then show ?thesis by (simp add: prev_def)
    next
      case nz: False
      have "j2len (j - 1) \<le> (j - 1) + 1 - blo"
        using assms(1) by (simp add: lens_bounded_def)
      with nz show ?thesis by (simp add: prev_def)
    qed
    have ki: "k \<le> Suc i" and kj: "k \<le> Suc j"
      using p1 p2 by (simp_all add: k_def)
    have run: "a ! (i - d) = b ! (j - d)" if "d < k" for d
    proof (cases d)
      case 0
      then show ?thesis using Cons.prems(1) by simp
    next
      case (Suc d')
      with that have d': "d' < prev" by (simp add: k_def)
      then have nz: "j \<noteq> 0" by (auto simp: prev_def split: if_splits)
      with d' have "d' < j2len (j - 1)" by (simp add: prev_def)
      with assms(3) have "a ! (i - 1 - d') = b ! (j - 1 - d')"
        by (simp add: lens_match_def)
      then show ?thesis by (simp add: Suc)
    qed
    have lm: "lens_match a b (Suc i) (newj2len(j := k))"
      using Cons.prems(2) run by (auto simp: lens_match_def)
    have mt: "matches a b (if bs < k then (i + 1 - k, j + 1 - k, k) else (bi, bj, bs))"
    proof (cases "bs < k")
      case True
      have "a ! (i + 1 - k + d) = b ! (j + 1 - k + d)" if "d < k" for d
      proof -
        have "k - 1 - d < k" using that by simp
        from run [OF this] have r: "a ! (i - (k - 1 - d)) = b ! (j - (k - 1 - d))" .
        have e1: "i - (k - 1 - d) = i + 1 - k + d" using that ki by linarith
        have e2: "j - (k - 1 - d) = j + 1 - k + d" using that kj by linarith
        show ?thesis using r unfolding e1 e2 .
      qed
      with True show ?thesis by (simp add: matches_def)
    next
      case False
      then show ?thesis using Cons.prems(3) by (simp add: best)
    qed
    have eq: "match_row j2len i blo bhi (j # js) (newj2len, best) =
          match_row j2len i blo bhi js (newj2len(j := k), if bs < k then (i + 1 - k, j + 1 - k, k) else (bi, bj, bs))"
      using False by (simp add: best k_def prev_def Let_def)
    show ?thesis unfolding eq by (rule Cons.IH [OF js lm mt])
  qed
qed

lemma match_rows_matches:
  assumes "alo \<le> i" and "i \<le> ahi" and "lens_bounded alo blo i j2len"
    and "in_window alo i blo bhi best" and "lens_match a b i j2len" and "matches a b best"
  shows "matches a b (snd (match_rows a b blo bhi [i..<ahi] (j2len, best)))"
  using assms
proof (induction "ahi - i" arbitrary: i j2len best)
  case 0
  then show ?case by simp
next
  case (Suc n)
  from Suc.hyps(2) have lt: "i < ahi" by simp
  have lb0: "lens_bounded alo blo (Suc i) (\<lambda>_. 0)"
    by (simp add: lens_bounded_def)
  have lm0: "lens_match a b (Suc i) (\<lambda>_. 0)"
    by (simp add: lens_match_def)
  have w: "in_window alo (Suc i) blo bhi best"
    using Suc.prems(4) by (rule in_window_mono) simp
  have js: "\<forall>j\<in>set (b2j b (a ! i)). b ! j = a ! i"
    by (simp add: set_b2j)
  obtain nj best' where r: "match_row j2len i blo bhi (b2j b (a ! i)) (\<lambda>_. 0, best) = (nj, best')"
    by (cases "match_row j2len i blo bhi (b2j b (a ! i)) (\<lambda>_. 0, best)")
  from match_row_bounds [OF Suc.prems(3) Suc.prems(1) lb0 w, where js = "b2j b (a ! i)"] r
  have nj: "lens_bounded alo blo (Suc i) nj" and b': "in_window alo (Suc i) blo bhi best'"
    by simp_all
  have "lens_match a b (Suc i) (fst (match_row j2len i blo bhi (b2j b (a ! i)) (\<lambda>_. 0, best)))
       \<and> matches a b (snd (match_row j2len i blo bhi (b2j b (a ! i)) (\<lambda>_. 0, best)))"
    by (rule match_row_matches [OF Suc.prems(3) Suc.prems(1) Suc.prems(5) js lm0 Suc.prems(6)])
  then have nm: "lens_match a b (Suc i) nj" and bm: "matches a b best'"
    unfolding r by simp_all
  have "matches a b (snd (match_rows a b blo bhi [Suc i..<ahi] (nj, best')))"
  proof (rule Suc.hyps(1))
    show "n = ahi - Suc i" using Suc.hyps(2) by simp
    show "alo \<le> Suc i" using Suc.prems(1) by simp
    show "Suc i \<le> ahi" using lt by simp
  qed (rule nj, rule b', rule nm, rule bm)
  then show ?case unfolding upt_conv_Cons [OF lt] match_rows.simps r .
qed

lemma extend_left_matches:
  "matches a b m \<Longrightarrow> matches a b (extend_left ok a b alo blo m)"
proof (induction ok a b alo blo m rule: extend_left.induct)
  case (1 ok a b alo blo besti bestj bestsize)
  show ?case
  proof (cases "alo < besti \<and> blo < bestj \<and> ok (b ! (bestj - 1)) \<and> a ! (besti - 1) = b ! (bestj - 1)")
    case True
    have "a ! (besti - 1 + d) = b ! (bestj - 1 + d)" if "d < bestsize + 1" for d
    proof (cases d)
      case 0
      then show ?thesis using True by simp
    next
      case (Suc d')
      with that 1(2) have "a ! (besti + d') = b ! (bestj + d')" by (simp add: matches_def)
      moreover have "besti - 1 + d = besti + d'" "bestj - 1 + d = bestj + d'"
        using True Suc by simp_all
      ultimately show ?thesis by simp
    qed
    then have "matches a b (besti - 1, bestj - 1, bestsize + 1)"
      by (simp add: matches_def)
    from 1(1) [OF True this] True show ?thesis
      by (subst extend_left.simps) simp
  next
    case False
    then show ?thesis using 1(2) by (subst extend_left.simps) auto
  qed
qed

lemma extend_right_matches:
  "matches a b m \<Longrightarrow> matches a b (extend_right ok a b ahi bhi m)"
proof (induction ok a b ahi bhi m rule: extend_right.induct)
  case (1 ok a b ahi bhi besti bestj bestsize)
  show ?case
  proof (cases "besti + bestsize < ahi \<and> bestj + bestsize < bhi \<and> ok (b ! (bestj + bestsize))
         \<and> a ! (besti + bestsize) = b ! (bestj + bestsize)")
    case True
    have "matches a b (besti, bestj, bestsize + 1)"
      using 1(2) True by (auto simp: matches_def less_Suc_eq)
    from 1(1) [OF True this] True show ?thesis
      by (subst extend_right.simps) simp
  next
    case False
    then show ?thesis using 1(2) by (subst extend_right.simps) auto
  qed
qed

lemma find_longest_match_matches:
  "matches a b (find_longest_match a b alo ahi blo bhi)"
proof -
  have "matches a b (snd (match_rows a b blo bhi [alo..<ahi] (\<lambda>_. 0, (alo, blo, 0))))"
  proof (cases "alo \<le> ahi")
    case True
    show ?thesis
      by (rule match_rows_matches [OF le_refl True])
         (simp_all add: lens_bounded_def in_window_def lens_match_def matches_def)
  next
    case False
    then show ?thesis by (simp add: matches_def)
  qed
  then show ?thesis
    unfolding find_longest_match_def
    by (intro extend_right_matches extend_left_matches)
qed

lemma apart_sym: "apart p q \<Longrightarrow> apart q p"
  by (auto simp: apart_def)

lemma apart_contained: "apart x r \<Longrightarrow> contained n r \<Longrightarrow> apart x n"
  by (auto simp: apart_def before_def contained_def split: prod.splits)

lemma sorted_wrt_apart_replace:
  assumes "sorted_wrt apart (xs @ r # ys)" and "sorted_wrt apart ns" and "\<forall>n\<in>set ns. contained n r"
  shows "sorted_wrt apart (xs @ ns @ ys)"
proof -
  from assms(1) have x: "sorted_wrt apart xs" and y: "sorted_wrt apart ys"
    and xr: "\<forall>x\<in>set xs. apart x r" and ry: "\<forall>y\<in>set ys. apart r y"
    and xy: "\<forall>x\<in>set xs. \<forall>y\<in>set ys. apart x y"
    by (auto simp: sorted_wrt_append)
  have xn: "\<forall>x\<in>set xs. \<forall>n\<in>set ns. apart x n"
    using xr assms(3) apart_contained by blast
  have ny: "\<forall>n\<in>set ns. \<forall>y\<in>set ys. apart n y"
    using ry assms(3) apart_contained apart_sym by blast
  show ?thesis
    using x y xy xn ny assms(2) by (auto simp: sorted_wrt_append)
qed

lemma matching_loop_inv:
  "loop_inv a b queue blocks \<Longrightarrow> loop_inv a b [] (matching_loop a b queue blocks)"
proof (induction a b queue blocks rule: matching_loop.induct)
  case (1 a b blocks)
  then show ?case by (simp add: matching_loop.simps)
next
  case (2 a b alo ahi blo bhi queue blocks)
  obtain i j k where f: "find_longest_match a b alo ahi blo bhi = (i, j, k)"
    by (cases "find_longest_match a b alo ahi blo bhi")
  have w: "in_window alo ahi blo bhi (i, j, k)"
    using find_longest_match_bounds [of alo ahi blo bhi a b] f by simp
  have m: "matches a b (i, j, k)"
    using find_longest_match_matches [of a b alo ahi blo bhi] f by simp
  from 2(3) have gq: "good_window a b (alo, ahi, blo, bhi)" and gqs: "\<forall>q\<in>set queue. good_window a b q"
    and gb: "\<forall>m\<in>set blocks. good_block a b m"
    and ap: "sorted_wrt apart (map block_window blocks @ (alo, ahi, blo, bhi) # queue)"
    by (simp_all add: loop_inv_def)
  show ?case
  proof (cases "k = 0")
    case True
    have "sorted_wrt apart (map block_window blocks @ [] @ queue)"
      by (rule sorted_wrt_apart_replace [OF ap]) simp_all
    then have "loop_inv a b queue blocks"
      using gqs gb by (simp add: loop_inv_def)
    from 2(2) [OF f [symmetric] refl _ this] True f show ?thesis
      by (subst matching_loop.simps) simp
  next
    case False
    let ?R = "if i + k < ahi \<and> j + k < bhi then [(i + k, ahi, j + k, bhi)] else []"
    let ?L = "if alo < i \<and> blo < j then [(alo, i, blo, j)] else []"
    from w False have b: "alo \<le> i" "blo \<le> j" "i + k \<le> ahi" "j + k \<le> bhi"
      by (auto simp: in_window_def)
    have new: "sorted_wrt apart (block_window (i, j, k) # ?R @ ?L)"
      by (auto simp: apart_def before_def block_window_def)
    have wi: "\<forall>n\<in>set (block_window (i, j, k) # ?R @ ?L). contained n (alo, ahi, blo, bhi)"
      using b by (auto simp: contained_def block_window_def)
    have "sorted_wrt apart (map block_window blocks @ (block_window (i, j, k) # ?R @ ?L) @ queue)"
      by (rule sorted_wrt_apart_replace [OF ap new wi])
    then have s: "sorted_wrt apart (map block_window (blocks @ [(i, j, k)]) @ (?R @ ?L @ queue))"
      by simp
    have gn: "good_block a b (i, j, k)"
      using False m b gq by (auto simp: good_block_def good_window_def)
    have gw: "\<forall>q\<in>set (?R @ ?L @ queue). good_window a b q"
      using gqs gq b by (auto simp: good_window_def)
    have "loop_inv a b (?R @ ?L @ queue) (blocks @ [(i, j, k)])"
      using s gn gb gw unfolding loop_inv_def by auto
    from 2(1) [OF f [symmetric] refl False this] False f show ?thesis
      by (subst matching_loop.simps) simp
  qed
qed

lemma matching_loop_result:
  "(\<forall>m\<in>set (matching_loop a b [(0, length a, 0, length b)] []). good_block a b m)
   \<and> sorted_wrt apart (map block_window (matching_loop a b [(0, length a, 0, length b)] []))"
proof -
  have "loop_inv a b [(0, length a, 0, length b)] []"
    by (simp add: loop_inv_def good_window_def)
  from matching_loop_inv [OF this] show ?thesis
    by (simp add: loop_inv_def)
qed

lemma sorted_distinct_wrt:
  assumes "sorted xs" and "distinct xs"
    and "\<And>x y. x \<in> set xs \<Longrightarrow> y \<in> set xs \<Longrightarrow> x \<le> y \<Longrightarrow> x \<noteq> y \<Longrightarrow> P x y"
  shows "sorted_wrt P xs"
  unfolding sorted_wrt_iff_nth_less
proof (intro allI impI)
  fix i j assume ij: "i < j" "j < length xs"
  then have "xs ! i \<le> xs ! j"
    using assms(1) by (simp add: sorted_iff_nth_mono)
  moreover have "xs ! i \<noteq> xs ! j"
    using assms(2) ij by (simp add: nth_eq_iff_index_eq)
  ultimately show "P (xs ! i) (xs ! j)"
    using assms(3) ij by simp
qed

lemma apart_blocks_distinct:
  assumes "sorted_wrt apart (map block_window ms)" and "\<forall>m\<in>set ms. good_block a b m"
  shows "distinct ms"
  using assms
proof (induction ms)
  case Nil
  then show ?case by simp
next
  case (Cons m ms)
  have "m \<notin> set ms"
  proof
    assume "m \<in> set ms"
    with Cons.prems(1) have "apart (block_window m) (block_window m)" by auto
    moreover have "good_block a b m" using Cons.prems(2) by simp
    ultimately show False
      by (auto simp: apart_def before_def block_window_def good_block_def split: prod.splits)
  qed
  with Cons show ?case by simp
qed

lemma apart_blocks_pairwise:
  assumes "sorted_wrt apart (map block_window ms)" and "x \<in> set ms" and "y \<in> set ms" and "x \<noteq> y"
  shows "apart (block_window x) (block_window y)"
proof -
  from assms(2,3) obtain p q where p: "p < length ms" "ms ! p = x" and q: "q < length ms" "ms ! q = y"
    by (auto simp: in_set_conv_nth)
  with assms(4) have "p \<noteq> q" by auto
  then consider "p < q" | "q < p" by linarith
  then show ?thesis
  proof cases
    case 1
    with assms(1) p q show ?thesis
      by (auto simp: sorted_wrt_iff_nth_less)
  next
    case 2
    with assms(1) p q have "apart (block_window y) (block_window x)"
      by (auto simp: sorted_wrt_iff_nth_less)
    then show ?thesis by (rule apart_sym)
  qed
qed

lemma sorted_blocks_follow:
  assumes "sorted_wrt apart (map block_window ms)" and "\<forall>m\<in>set ms. good_block a b m"
  shows "sorted_wrt follows (sort ms)"
proof (rule sorted_distinct_wrt)
  show "sorted (sort ms)" by simp
  show "distinct (sort ms)" using apart_blocks_distinct [OF assms] by simp
next
  fix x y assume xy: "x \<in> set (sort ms)" "y \<in> set (sort ms)" "x \<le> y" "x \<noteq> y"
  obtain i j k where x: "x = (i, j, k)" by (cases x)
  obtain i' j' k' where y: "y = (i', j', k')" by (cases y)
  have ap: "apart (block_window x) (block_window y)"
    using apart_blocks_pairwise [OF assms(1)] xy by simp
  have gy: "0 < k'" using assms(2) xy(2) by (auto simp: y good_block_def)
  have "i \<le> i'" using xy(3) by (auto simp: x y less_eq_prod_def)
  with ap gy show "follows x y"
    by (auto simp: x y apart_def before_def block_window_def follows_def)
qed

lemma matches_join:
  "matches a b (i, j, k) \<Longrightarrow> matches a b (i + k, j + k, k') \<Longrightarrow> matches a b (i, j, k + k')"
proof -
  assume 1: "matches a b (i, j, k)" and 2: "matches a b (i + k, j + k, k')"
  have "a ! (i + d) = b ! (j + d)" if "d < k + k'" for d
  proof (cases "d < k")
    case True
    with 1 show ?thesis by (simp add: matches_def)
  next
    case False
    then have "d - k < k'" using that by simp
    with 2 have "a ! (i + k + (d - k)) = b ! (j + k + (d - k))" by (simp add: matches_def)
    with False show ?thesis by simp
  qed
  then show ?thesis by (simp add: matches_def)
qed

lemma collapse_valid:
  assumes "sorted_wrt follows ((i1, j1, k1) # rest)"
    and "\<forall>m\<in>set rest. good_block a b m"
    and "matches a b (i1, j1, k1)" and "i1 + k1 \<le> length a" and "j1 + k1 \<le> length b"
    and "i \<le> i1" and "j \<le> j1"
  shows "valid_blocks a b i j (collapse (i1, j1, k1) rest @ [(length a, length b, 0)])"
  using assms
proof (induction rest arbitrary: i1 j1 k1 i j)
  case Nil
  then show ?case by (auto simp: matches_def)
next
  case (Cons m rest)
  obtain i2 j2 k2 where m: "m = (i2, j2, k2)" by (cases m)
  from Cons.prems(2) have g2: "good_block a b (i2, j2, k2)" and gr: "\<forall>m\<in>set rest. good_block a b m"
    by (simp_all add: m)
  from Cons.prems(1) have f: "follows (i1, j1, k1) (i2, j2, k2)"
    and f1r: "\<forall>x\<in>set rest. follows (i1, j1, k1) x"
    and f2r: "\<forall>x\<in>set rest. follows (i2, j2, k2) x"
    and sr: "sorted_wrt follows rest"
    by (simp_all add: m)
  from f have f12: "i1 + k1 \<le> i2" "j1 + k1 \<le> j2"
    by (simp_all add: follows_def)
  from g2 have m2: "matches a b (i2, j2, k2)" and b2: "i2 + k2 \<le> length a" "j2 + k2 \<le> length b"
    by (auto simp: good_block_def)
  show ?case
  proof (cases "i1 + k1 = i2 \<and> j1 + k1 = j2")
    case True
    have s: "sorted_wrt follows ((i1, j1, k1 + k2) # rest)"
      using f2r sr True by (auto simp: follows_def)
    have mm: "matches a b (i1, j1, k1 + k2)"
      using matches_join [OF Cons.prems(3)] m2 True by simp
    have "valid_blocks a b i j (collapse (i1, j1, k1 + k2) rest @ [(length a, length b, 0)])"
      using Cons.IH [OF s gr mm _ _ Cons.prems(6,7)] b2 True by (simp add: add.assoc)
    with True show ?thesis by (simp add: m)
  next
    case False
    have s: "sorted_wrt follows ((i2, j2, k2) # rest)"
      using f2r sr by simp
    show ?thesis
    proof (cases "k1 = 0")
      case True
      have "valid_blocks a b i j (collapse (i2, j2, k2) rest @ [(length a, length b, 0)])"
        by (rule Cons.IH [OF s gr m2 b2]) (use Cons.prems(6,7) f12 in simp_all)
      with False True show ?thesis by (auto simp: m)
    next
      case nz: False
      have "valid_blocks a b (i1 + k1) (j1 + k1) (collapse (i2, j2, k2) rest @ [(length a, length b, 0)])"
        by (rule Cons.IH [OF s gr m2 b2]) (use f12 in simp_all)
      with False nz Cons.prems(3,6,7) show ?thesis by (auto simp: m)
    qed
  qed
qed

lemma blocks_end_snoc: "blocks_end i j (ms @ [(p, q, 0)]) = (p, q)"
  by (induction ms arbitrary: i j) auto

lemma get_matching_blocks_valid:
  "valid_blocks a b 0 0 (get_matching_blocks a b)"
  "blocks_end 0 0 (get_matching_blocks a b) = (length a, length b)"
proof -
  let ?ms = "matching_loop a b [(0, length a, 0, length b)] []"
  note r = matching_loop_result [of a b]
  have f: "sorted_wrt follows (sort ?ms)"
    using sorted_blocks_follow [of ?ms a b] r by simp
  have s: "sorted_wrt follows ((0, 0, 0) # sort ?ms)"
    using f by (auto simp: follows_def)
  have g: "\<forall>m\<in>set (sort ?ms). good_block a b m"
    using r by simp
  show "valid_blocks a b 0 0 (get_matching_blocks a b)"
    unfolding get_matching_blocks_def
    by (rule collapse_valid [OF s g]) (simp_all add: matches_def)
  show "blocks_end 0 0 (get_matching_blocks a b) = (length a, length b)"
    unfolding get_matching_blocks_def by (rule blocks_end_snoc)
qed

lemma compare_source_side: "source_side (compare a b) = a"
  by (rule compare_sides [OF get_matching_blocks_valid])

lemma compare_target_side: "target_side (compare a b) = b"
  by (rule compare_sides [OF get_matching_blocks_valid])

subsubsection \<open>The differ on a sequence and itself\<close>

lemma diagonal_run_unfold:
  "diagonal_run a i = (if popular a (a ! i) then 0 else run_before a i + 1)"
  by (cases i) (simp_all add: run_before_def)

declare diagonal_run.simps [simp del]

lemma match_row_diagonal:
  assumes "\<not> popular a (a ! i)"
    and "\<forall>j. j2len j \<le> run_before a i" and "\<forall>j. j2len j \<le> diagonal_run a j"
    and "(if i = 0 then 0 else j2len (i - 1)) = run_before a i"
    and "sorted_wrt (<) js" and "\<forall>j\<in>set js. j < bhi \<and> a ! j = a ! i"
    and "row_inv a i js st"
  shows "row_inv a i [] (match_row j2len i 0 bhi js st)"
  using assms(5,6,7)
proof (induction js arbitrary: st)
  case Nil
  then show ?case by simp
next
  case (Cons j js)
  obtain nj bi bj bs where st: "st = (nj, bi, bj, bs)" by (cases st)
  from Cons.prems(3) have inv:
    "\<forall>j. nj j \<le> diagonal_run a i" "\<forall>j. nj j \<le> diagonal_run a j"
    "i \<in> set (j # js) \<or> nj i = diagonal_run a i" "bi = bj"
    "\<forall>i'<i. diagonal_run a i' \<le> bs" "i \<in> set (j # js) \<or> diagonal_run a i \<le> bs"
    by (simp_all add: row_inv_def st)
  define k where "k = (if j = 0 then 0 else j2len (j - 1)) + 1"
  have jb: "j < bhi" and aj: "a ! j = a ! i" using Cons.prems(2) by simp_all
  have di: "diagonal_run a i = run_before a i + 1"
    using assms(1) by (simp add: diagonal_run_unfold)
  have dj: "diagonal_run a j = run_before a j + 1"
    using assms(1) aj by (simp add: diagonal_run_unfold)
  have ki: "k \<le> diagonal_run a i"
    using assms(2) by (simp add: k_def di)
  have kj: "k \<le> diagonal_run a j"
  proof (cases "j = 0")
    case True
    with dj show ?thesis by (simp add: k_def)
  next
    case False
    have "j2len (j - 1) \<le> diagonal_run a (j - 1)" using assms(3) by simp
    with False show ?thesis by (simp add: k_def dj run_before_def)
  qed
  have sorted': "sorted_wrt (<) js" and gt: "\<forall>x\<in>set js. j < x"
    using Cons.prems(1) by simp_all
  have rest: "\<forall>j\<in>set js. j < bhi \<and> a ! j = a ! i" using Cons.prems(2) by simp
  have step: "match_row j2len i 0 bhi (j # js) st =
        match_row j2len i 0 bhi js
          (nj(j := k), if bs < k then (i + 1 - k, j + 1 - k, k) else (bi, bj, bs))"
    using jb by (simp add: st k_def Let_def)
  have "row_inv a i js (nj(j := k), if bs < k then (i + 1 - k, j + 1 - k, k) else (bi, bj, bs))"
  proof -
    consider (eq) "j = i" | (lt) "j < i" | (gt) "i < j" by linarith
    then show ?thesis
    proof cases
      case eq
      have "k = diagonal_run a i"
        using assms(4) di by (cases "i = 0") (simp_all add: k_def eq)
      then show ?thesis
        using inv ki kj eq by (auto simp: row_inv_def)
    next
      case lt
      then have "k \<le> bs" using inv(5) kj by (meson le_trans)
      then have nb: "\<not> bs < k" by simp
      from lt inv(3) have n3: "i \<in> set js \<or> nj i = diagonal_run a i" by auto
      from lt inv(6) have n6: "i \<in> set js \<or> diagonal_run a i \<le> bs" by auto
      show ?thesis
        using inv(1,2,4,5) ki kj nb n3 n6 lt by (auto simp: row_inv_def)
    next
      case gt
      with \<open>\<forall>x\<in>set js. j < x\<close> have notin: "i \<notin> set (j # js)" by auto
      with inv(3,6) have n3: "nj i = diagonal_run a i" and n6: "diagonal_run a i \<le> bs" by simp_all
      from ki n6 have nb: "\<not> bs < k" by simp
      show ?thesis
        using inv(1,2,4,5) ki kj nb n3 n6 gt by (auto simp: row_inv_def)
    qed
  qed
  from Cons.IH [OF sorted' rest this] show ?case unfolding step .
qed

lemma sorted_indices_of: "sorted_wrt (<) (indices_of b x)"
  by (simp add: indices_of_def sorted_wrt_filter strict_sorted_iff)

lemma set_indices_of: "set (indices_of b x) = {j. j < length b \<and> b ! j = x}"
  by (auto simp: indices_of_def)

lemma match_rows_step_diagonal:
  assumes "rows_inv a i (j2len, best)" and "i < length a"
  shows "rows_inv a (Suc i) (match_row j2len i 0 (length a) (b2j a (a ! i)) (\<lambda>_. 0, best))"
proof -
  obtain bi bj bs where best: "best = (bi, bj, bs)" by (cases best)
  from assms(1) have inv:
    "\<forall>j. j2len j \<le> run_before a i" "\<forall>j. j2len j \<le> diagonal_run a j"
    "(if i = 0 then 0 else j2len (i - 1)) = run_before a i" "bi = bj"
    "\<forall>i'<i. diagonal_run a i' \<le> bs"
    by (simp_all add: rows_inv_def best)
  show ?thesis
  proof (cases "popular a (a ! i)")
    case True
    then have z: "diagonal_run a i = 0" by (simp add: diagonal_run_unfold)
    have "\<forall>i'<Suc i. diagonal_run a i' \<le> bs"
      using inv(5) z by (auto simp: less_Suc_eq)
    with True inv(4) z show ?thesis
      by (simp add: b2j_def rows_inv_def best run_before_def)
  next
    case False
    let ?js = "indices_of a (a ! i)"
    have start: "row_inv a i ?js (\<lambda>_. 0, best)"
      using inv(4,5) assms(2) by (simp add: row_inv_def best set_indices_of)
    have "row_inv a i [] (match_row j2len i 0 (length a) ?js (\<lambda>_. 0, best))"
      by (rule match_row_diagonal [OF False inv(1,2,3) sorted_indices_of _ start])
         (simp add: set_indices_of)
    moreover obtain nj bi' bj' bs' where
      r: "match_row j2len i 0 (length a) ?js (\<lambda>_. 0, best) = (nj, bi', bj', bs')"
      by (cases "match_row j2len i 0 (length a) ?js (\<lambda>_. 0, best)") auto
    ultimately have res:
      "\<forall>j. nj j \<le> diagonal_run a i" "\<forall>j. nj j \<le> diagonal_run a j"
      "nj i = diagonal_run a i" "bi' = bj'"
      "\<forall>i'<i. diagonal_run a i' \<le> bs'" "diagonal_run a i \<le> bs'"
      by (simp_all add: row_inv_def)
    have "\<forall>i'<Suc i. diagonal_run a i' \<le> bs'"
      using res(5,6) by (auto simp: less_Suc_eq)
    with res(1-4) show ?thesis
      using False by (simp add: b2j_def r rows_inv_def run_before_def)
  qed
qed

lemma match_rows_diagonal:
  assumes "rows_inv a i st" and "i \<le> length a"
  shows "rows_inv a (length a) (match_rows a a 0 (length a) [i..<length a] st)"
  using assms
proof (induction "length a - i" arbitrary: i st)
  case 0
  then show ?case by simp
next
  case (Suc n)
  then have lt: "i < length a" by simp
  obtain j2len best where st: "st = (j2len, best)" by (cases st)
  have "rows_inv a (Suc i) (match_row j2len i 0 (length a) (b2j a (a ! i)) (\<lambda>_. 0, best))"
    using Suc.prems(1) lt unfolding st by (rule match_rows_step_diagonal)
  moreover have "n = length a - Suc i" using Suc.hyps(2) by simp
  ultimately have "rows_inv a (length a)
      (match_rows a a 0 (length a) [Suc i..<length a]
         (match_row j2len i 0 (length a) (b2j a (a ! i)) (\<lambda>_. 0, best)))"
    using lt by (intro Suc.hyps(1)) simp_all
  then show ?case using lt by (simp add: upt_conv_Cons st)
qed

lemma extend_left_diagonal:
  "extend_left (\<lambda>x. True) a a 0 0 (i, i, k) = (0, 0, k + i)"
proof (induction i arbitrary: k)
  case 0
  then show ?case by (subst extend_left.simps) simp
next
  case (Suc i)
  show ?case by (subst extend_left.simps) (simp add: Suc)
qed

lemma extend_right_diagonal:
  "k \<le> length a \<Longrightarrow> extend_right (\<lambda>x. True) a a (length a) (length a) (0, 0, k) = (0, 0, length a)"
proof (induction "length a - k" arbitrary: k)
  case 0
  then show ?case by (subst extend_right.simps) simp
next
  case (Suc n)
  then have "k < length a" by simp
  moreover have "extend_right (\<lambda>x. True) a a (length a) (length a) (0, 0, k + 1) = (0, 0, length a)"
    using Suc by (intro Suc.hyps(1)) simp_all
  ultimately show ?case by (subst extend_right.simps) simp
qed

lemma find_longest_match_same:
  "find_longest_match a a 0 (length a) 0 (length a) = (0, 0, length a)"
proof -
  let ?n = "length a"
  let ?m = "snd (match_rows a a 0 ?n [0..<?n] (\<lambda>_. 0, (0, 0, 0)))"
  obtain bi bj bs where m: "?m = (bi, bj, bs)" by (cases ?m)
  have "rows_inv a 0 (\<lambda>_. 0, (0, 0, 0))"
    by (simp add: rows_inv_def run_before_def)
  from match_rows_diagonal [OF this] m have d: "bi = bj"
    by (auto simp: rows_inv_def split: prod.splits)
  have "in_window 0 ?n 0 ?n ?m"
    by (rule match_rows_bounds) (simp_all add: lens_bounded_def in_window_def)
  with m d have le: "bi + bs \<le> ?n" by (auto simp: in_window_def)
  have "find_longest_match a a 0 ?n 0 ?n =
      extend_right (\<lambda>x. False) a a ?n ?n
       (extend_left (\<lambda>x. False) a a 0 0
         (extend_right (\<lambda>x. True) a a ?n ?n
           (extend_left (\<lambda>x. True) a a 0 0 (bi, bi, bs))))"
    using m d by (simp add: find_longest_match_def isbjunk_def [abs_def])
  also have "\<dots> = extend_right (\<lambda>x. False) a a ?n ?n
       (extend_left (\<lambda>x. False) a a 0 0 (0, 0, ?n))"
    using le by (simp add: extend_left_diagonal extend_right_diagonal)
  also have "\<dots> = (0, 0, ?n)"
    by (simp add: extend_left.simps extend_right.simps)
  finally show ?thesis .
qed

lemma get_matching_blocks_same:
  "get_matching_blocks a a = (if a = [] then [] else [(0, 0, length a)]) @ [(length a, length a, 0)]"
proof -
  have "matching_loop a a [(0, length a, 0, length a)] [] =
          (if a = [] then [] else [(0, 0, length a)])"
    by (subst matching_loop.simps) (simp add: find_longest_match_same matching_loop.simps)
  then show ?thesis by (simp add: get_matching_blocks_def)
qed

lemma compare_same: "compare a a = map (\<lambda>l. str ''  '' @ l) a"
proof (cases "a = []")
  case True
  then show ?thesis
    by (simp add: compare_def get_opcodes_def get_matching_blocks_same)
next
  case False
  have "compare a a = dump '' '' a 0 (length a)"
    using False by (simp add: compare_def get_opcodes_def get_matching_blocks_same)
  also have "\<dots> = map (\<lambda>l. str ''  '' @ l) (map ((!) a) [0..<length a])"
    by (simp add: dump_def comp_def)
  finally show ?thesis by (simp add: map_nth)
qed

subsubsection \<open>The diff renderer\<close>

lemma render_columns_eq:
  "render_columns source target =
     (map (\<lambda>l. line_div (source_class l) (drop 2 l))
        (filter is_source_line (compare (splitlines source) (splitlines target))),
      map (\<lambda>l. line_div (target_class l) (drop 2 l))
        (filter is_target_line (compare (splitlines source) (splitlines target))))"
  by (simp add: render_columns_def Let_def render_lines_eq)

lemma map2_map_same: "map2 f (map g xs) (map h xs) = map (\<lambda>x. f (g x) (h x)) xs"
  by (induction xs) simp_all

lemma source_column:
  "fst (render_columns source target) =
     map2 line_div
       (map source_class (filter is_source_line (compare (splitlines source) (splitlines target))))
       (splitlines source)"
proof -
  let ?d = "filter is_source_line (compare (splitlines source) (splitlines target))"
  have "map (drop 2) ?d = splitlines source"
    using compare_source_side [of "splitlines source" "splitlines target"]
    by (simp add: source_side_def)
  then have "map2 line_div (map source_class ?d) (splitlines source) =
        map2 line_div (map source_class ?d) (map (drop 2) ?d)" by simp
  also have "\<dots> = map (\<lambda>l. line_div (source_class l) (drop 2 l)) ?d"
    by (rule map2_map_same)
  finally show ?thesis by (simp add: render_columns_eq)
qed

lemma target_column:
  "snd (render_columns source target) =
     map2 line_div
       (map target_class (filter is_target_line (compare (splitlines source) (splitlines target))))
       (splitlines target)"
proof -
  let ?d = "filter is_target_line (compare (splitlines source) (splitlines target))"
  have "map (drop 2) ?d = splitlines target"
    using compare_target_side [of "splitlines source" "splitlines target"]
    by (simp add: target_side_def)
  then have "map2 line_div (map target_class ?d) (splitlines target) =
        map2 line_div (map target_class ?d) (map (drop 2) ?d)" by simp
  also have "\<dots> = map (\<lambda>l. line_div (target_class l) (drop 2 l)) ?d"
    by (rule map2_map_same)
  finally show ?thesis by (simp add: render_columns_eq)
qed

lemma hint_renders_nothing:
  assumes "prefix (str ''? '') h"
  shows "render_lines (pre @ [h] @ post) 0 ([], []) = render_lines (pre @ post) 0 ([], [])"
proof -
  from assms have "\<not> is_source_line h" "\<not> is_target_line h"
    by (auto simp: is_source_line_def is_target_line_def prefix_def)
  then show ?thesis by (simp add: render_lines_eq)
qed

lemma or_empty_target_text:
  "subscript_target_sql model = Inr v \<Longrightarrow> target_text model = Some (or_empty v)"
  by (auto simp: subscript_target_sql_def target_text_def or_empty_def split: target_sql_key.splits)

lemma target_text_None:
  "target_text model = None \<longleftrightarrow> subscript_target_sql model = Inl (KeyError ''target_sql'')"
  by (auto simp: subscript_target_sql_def target_text_def split: target_sql_key.splits)

lemma render_translated_model_as_html_text:
  assumes "target_text model = Some t"
  shows "render_translated_model_as_html model =
           Inr (page_head @ translation_status model @ page_source_column @
                concat (fst (render_columns (source_sql model) t)) @ page_target_column @
                concat (snd (render_columns (source_sql model) t)) @ page_foot)"
  using assms
  by (auto simp: render_translated_model_as_html_def subscript_target_sql_def target_text_def
        or_empty_def split: target_sql_key.splits prod.splits)

lemma splitlines_ab: "splitlines (str ''a\<newline>b'') = [str ''a'', str ''b'']"
  by (simp add: splitlines_def is_linebreak_def)

lemma splitlines_ac: "splitlines (str ''a\<newline>c'') = [str ''a'', str ''c'']"
  by (simp add: splitlines_def is_linebreak_def)

lemma empty_target_columns:
  "render_columns source [] = (map (line_div ''removed'') (splitlines source), [])"
proof -
  let ?d = "compare (splitlines source) []"
  have sp: "splitlines [] = []" by (simp add: splitlines_def)
  have "target_side ?d = []" by (rule compare_target_side)
  then have t: "filter is_target_line ?d = []" by (simp add: target_side_def)
  then have nb: "\<forall>l\<in>set ?d. \<not> prefix (str ''  '') l"
    by (auto simp: filter_empty_conv is_target_line_def)
  have "map (\<lambda>l. line_div (source_class l) (drop 2 l)) (filter is_source_line ?d) =
        map (\<lambda>l. line_div ''removed'' (drop 2 l)) (filter is_source_line ?d)"
    using nb by (auto simp: source_class_def)
  also have "\<dots> = map (line_div ''removed'') (source_side ?d)"
    by (simp add: source_side_def comp_def)
  finally have s: "map (\<lambda>l. line_div (source_class l) (drop 2 l)) (filter is_source_line ?d) =
        map (line_div ''removed'') (splitlines source)"
    by (simp add: compare_source_side)
  show ?thesis
    by (simp add: render_columns_eq sp s t)
qed

lemma same_text_columns:
  "render_columns source source =
     (map (line_div ''unchanged'') (splitlines source),
      map (line_div ''unchanged'') (splitlines source))"
proof -
  have s: "filter is_source_line (map (\<lambda>l. 32 # 32 # l) ls) = map (\<lambda>l. 32 # 32 # l) ls"
    for ls :: "py_str list"
    by (induction ls) (simp_all add: is_source_line_def)
  have t: "filter is_target_line (map (\<lambda>l. 32 # 32 # l) ls) = map (\<lambda>l. 32 # 32 # l) ls"
    for ls :: "py_str list"
    by (induction ls) (simp_all add: is_target_line_def)
  show ?thesis
    by (simp add: render_columns_eq compare_same s t comp_def source_class_def target_class_def)
qed








end
